theory Spec2Isabelle
  imports Complex_Main
begin

section \<open>Python values\<close>

text \<open>
  A Python \<open>str\<close> is a sequence of Unicode code points, and \<open>len\<close> counts code points;
  a string is therefore a list of code-point numbers. ASCII pieces are written as HOL
  string literals and converted by \<open>ascii\<close>; the other characters of the source
  (emoji, check marks, the caret) are given by their code point.

  A Python \<open>float\<close> is an IEEE double. A value is a real number here, and an operation
  that rounds is followed by \<open>float64\<close>, the rounding to the nearest double with ties to
  the even significand: so \<open>progress * 1.5\<close> and the product with the length of the text.
  The products with 2 and 4 and the comparisons are exact in binary floating point and
  stand as they are; the quotient \<open>i / frames\<close> of the frame loop is kept exact.
\<close>

type_synonym pystr = "nat list"

type_synonym pyfloat = real

definition ascii :: "string \<Rightarrow> pystr" where
  "ascii s = map of_char s"

text \<open>\<open>int(x)\<close> on a float truncates towards zero.\<close>

definition py_int :: "pyfloat \<Rightarrow> int" where
  "py_int x = (if 0 \<le> x then \<lfloor>x\<rfloor> else \<lceil>x\<rceil>)"

text \<open>
  Binary floating point with a significand of \<open>p\<close> bits. The exponent of a positive \<open>x\<close> is
  the \<open>e\<close> with \<open>2^e \<le> x < 2^(e+1)\<close>, found by halving a value from 1 on and by doubling
  a value below 1. \<open>round_to p x\<close> is the nearest multiple of \<open>2^(e-p+1)\<close>, of two nearest
  ones the one with the even multiplier. The range of the exponent is not bounded. For
  what is computed here from a progress from 0 on this changes no result: an overflow is
  capped by \<open>min(1.0, x)\<close>, and a product below the normal range is cut off to 0 by
  \<open>int\<close> with either rounding.
\<close>

function halvings :: "real \<Rightarrow> int" where
  "halvings x = (if x < 2 then 0 else halvings (x / 2) + 1)"
  by pat_completeness auto
termination
proof (relation "measure (\<lambda>x. nat \<lfloor>x\<rfloor>)")
  show "wf (measure (\<lambda>x :: real. nat \<lfloor>x\<rfloor>))" by simp
next
  fix x :: real
  assume "\<not> x < 2"
  then have "x / 2 \<le> x - 1" by simp
  then have "\<lfloor>x / 2\<rfloor> \<le> \<lfloor>x - 1\<rfloor>" by (rule floor_mono)
  moreover have "1 \<le> \<lfloor>x\<rfloor>" using \<open>\<not> x < 2\<close> by (simp add: le_floor_iff)
  ultimately show "(x / 2, x) \<in> measure (\<lambda>x. nat \<lfloor>x\<rfloor>)" by simp
qed

function doublings :: "real \<Rightarrow> int" where
  "doublings x = (if x \<le> 0 \<or> 1 \<le> x then 0 else doublings (x * 2) + 1)"
  by pat_completeness auto
termination
proof (relation "measure (\<lambda>x. nat \<lfloor>1 / x\<rfloor>)")
  show "wf (measure (\<lambda>x :: real. nat \<lfloor>1 / x\<rfloor>))" by simp
next
  fix x :: real
  assume a: "\<not> (x \<le> 0 \<or> 1 \<le> x)"
  then have x: "0 < x" "x < 1" by simp_all
  then have y: "1 < 1 / x" by simp
  have "1 / (x * 2) \<le> 1 / x - 1 / 2" using y by (simp add: field_simps)
  then have "\<lfloor>1 / (x * 2)\<rfloor> \<le> \<lfloor>1 / x - 1 / 2\<rfloor>" by (rule floor_mono)
  also have "\<dots> \<le> \<lfloor>1 / x\<rfloor>" by (rule floor_mono) simp
  finally have le: "\<lfloor>1 / (x * 2)\<rfloor> \<le> \<lfloor>1 / x\<rfloor>" .
  have one: "1 \<le> \<lfloor>1 / x\<rfloor>" using y by (simp add: le_floor_iff)
  have "\<lfloor>1 / (x * 2)\<rfloor> < \<lfloor>1 / x\<rfloor>"
  proof (cases "1 / x < 2")
    case True
    then have h: "1 / (x * 2) < 1" using x by (simp add: field_simps)
    have "\<lfloor>1 / (x * 2)\<rfloor> < 1"
      unfolding floor_less_iff using h by simp
    with one show ?thesis by linarith
  next
    case False
    then have "1 / (x * 2) \<le> 1 / x - 1" using x by (simp add: field_simps)
    then have "\<lfloor>1 / (x * 2)\<rfloor> \<le> \<lfloor>1 / x - 1\<rfloor>" by (rule floor_mono)
    also have "\<lfloor>1 / x - 1\<rfloor> = \<lfloor>1 / x\<rfloor> - 1" by (rule floor_diff_one)
    finally show ?thesis by linarith
  qed
  with one have "nat \<lfloor>1 / (x * 2)\<rfloor> < nat \<lfloor>1 / x\<rfloor>" by linarith
  then show "(x * 2, x) \<in> measure (\<lambda>x. nat \<lfloor>1 / x\<rfloor>)" by simp
qed

definition exponent :: "real \<Rightarrow> int" where
  "exponent x = (if 1 \<le> x then halvings x else - doublings x)"

definition round_half_even :: "real \<Rightarrow> int" where
  "round_half_even x =
     (let f = \<lfloor>x\<rfloor>; r = x - of_int f
      in if r < 1 / 2 then f else if 1 / 2 < r then f + 1 else if even f then f else f + 1)"

definition round_to :: "nat \<Rightarrow> real \<Rightarrow> real" where
  "round_to p x =
     (if x = 0 then 0
      else (let u = 2 powi (exponent \<bar>x\<bar> - int p + 1)
            in sgn x * (of_int (round_half_even (\<bar>x\<bar> / u)) * u)))"

text \<open>A \<open>double\<close> has 53 bits of significand, a C \<open>float\<close> has 24.\<close>

definition float64 :: "real \<Rightarrow> real" where "float64 x = round_to 53 x"
definition float32 :: "real \<Rightarrow> real" where "float32 x = round_to 24 x"

declare halvings.simps [simp del]
declare doublings.simps [simp del]

text \<open>
  The slice \<open>xs[:n]\<close>: the first \<open>n\<close> elements, and for a negative \<open>n\<close> everything but
  the last \<open>-n\<close> elements.
\<close>

definition slice_to :: "'a list \<Rightarrow> int \<Rightarrow> 'a list" where
  "slice_to xs n = (if 0 \<le> n then take (nat n) xs else take (nat (int (length xs) + n)) xs)"

text \<open>\<open>s.split('\n')\<close>: the pieces between line feeds; the empty string gives one empty piece.\<close>

fun split_nl :: "pystr \<Rightarrow> pystr list" where
  "split_nl [] = [[]]"
| "split_nl (c # cs) =
     (if c = 10 then [] # split_nl cs
      else (case split_nl cs of [] \<Rightarrow> [[c]] | l # ls \<Rightarrow> (c # l) # ls))"

text \<open>
  Exceptions are values: a function that can raise returns \<open>error + 'a\<close>, with \<open>Inl\<close> the
  exception, and \<open>and_then\<close> runs the rest of a block only after a call that returned.
\<close>

datatype error = OSError | ValueError | OtherException

definition and_then :: "error + 'a \<Rightarrow> ('a \<Rightarrow> error + 'b) \<Rightarrow> error + 'b" where
  "and_then m f = (case m of Inl e \<Rightarrow> Inl e | Inr x \<Rightarrow> f x)"


section \<open>Constants of \<open>create_slides.py\<close>\<close>

type_synonym colour = "nat \<times> nat \<times> nat"

definition WIDTH :: int where "WIDTH = 1920"
definition HEIGHT :: int where "HEIGHT = 1080"

definition INDIGO :: colour where "INDIGO = (99, 102, 241)"
definition CYAN :: colour where "CYAN = (34, 211, 238)"
definition DARK_BG :: colour where "DARK_BG = (26, 26, 46)"
definition WHITE :: colour where "WHITE = (255, 255, 255)"
definition DARKER_BG :: colour where "DARKER_BG = (15, 15, 30)"


section \<open>Font resolution: \<open>get_font\<close>\<close>

text \<open>
  The file system and the font loader are outside the program. \<open>path_exists\<close> is
  \<open>os.path.exists\<close>, \<open>truetype\<close> is \<open>ImageFont.truetype\<close>, which raises for a file it cannot
  load, and \<open>load_default\<close> is \<open>ImageFont.load_default\<close>.
\<close>

datatype font = FreeTypeFont pystr int | DefaultFont

record font_env =
  path_exists :: "pystr \<Rightarrow> bool"
  truetype :: "pystr \<Rightarrow> int \<Rightarrow> error + font"
  load_default :: "error + font"

definition font_names :: "bool \<Rightarrow> pystr list" where
  "font_names bold =
     [ascii ''/System/Library/Fonts/Helvetica.ttc'',
      ascii ''/System/Library/Fonts/SFNSDisplay.ttf'',
      if bold then ascii ''/Library/Fonts/Arial Bold.ttf'' else ascii ''/Library/Fonts/Arial.ttf'']"

text \<open>
  The \<open>for\<close> loop over \<open>font_names\<close>: the bare \<open>except\<close> swallows every exception of
  \<open>truetype\<close> and the loop goes on; after the loop comes \<open>load_default\<close>, unguarded.
\<close>

fun get_font_loop :: "font_env \<Rightarrow> pystr list \<Rightarrow> int \<Rightarrow> error + font" where
  "get_font_loop env [] sz = load_default env"
| "get_font_loop env (font_name # rest) sz =
     (if path_exists env font_name
      then (case truetype env font_name sz of
              Inr f \<Rightarrow> Inr f
            | Inl e \<Rightarrow> get_font_loop env rest sz)
      else get_font_loop env rest sz)"

definition get_font :: "font_env \<Rightarrow> int \<Rightarrow> bool \<Rightarrow> error + font" where
  "get_font env sz bold = get_font_loop env (font_names bold) sz"

text \<open>A path is usable when it exists and the loader returns a font for it.\<close>

definition loadable :: "font_env \<Rightarrow> int \<Rightarrow> pystr \<Rightarrow> bool" where
  "loadable env sz p = (path_exists env p \<and> isl (truetype env p sz) = False)"

text \<open>An environment with every listed file present but broken, and one with no file at all.\<close>

definition broken_fonts_env :: font_env where
  "broken_fonts_env =
     \<lparr>path_exists = (\<lambda>p. True), truetype = (\<lambda>p s. Inl OSError), load_default = Inr DefaultFont\<rparr>"

definition no_fonts_env :: font_env where
  "no_fonts_env =
     \<lparr>path_exists = (\<lambda>p. False), truetype = (\<lambda>p s. Inl OSError), load_default = Inr DefaultFont\<rparr>"

text \<open>
  The font that \<open>get_font\<close> resolves to once the default font is known to be \<open>d\<close>.
\<close>

definition resolved :: "font_env \<Rightarrow> font \<Rightarrow> int \<Rightarrow> bool \<Rightarrow> font" where
  "resolved env d sz bold =
     (case List.find (loadable env sz) (font_names bold) of
        Some p \<Rightarrow> (case truetype env p sz of Inr f \<Rightarrow> f | Inl e \<Rightarrow> d)
      | None \<Rightarrow> d)"


section \<open>Images and drawing\<close>

text \<open>
  An image under construction is the canvas of \<open>Image.new('RGB', size, colour)\<close> together
  with the \<open>ImageDraw\<close> calls made on it, oldest first. A fill or outline is an RGB triple;
  \<open>rounded_rectangle\<close> has no outline and width 1 unless the call names them.
\<close>

datatype draw_op =
    RoundedRectangle "int list" int colour "colour option" int
  | Rectangle "int list" colour
  | Text "int \<times> int" pystr font colour

record pil_image =
  im_size :: "int \<times> int"
  im_background :: colour
  im_drawn :: "draw_op list"


section \<open>The chat-demo frame: \<open>create_chat_demo_frame\<close>\<close>

subsection \<open>Layout variables and fixed texts\<close>

definition chat_left :: int where "chat_left = 160"
definition chat_top :: int where "chat_top = 80"
definition chat_width :: int where "chat_width = 1600"
definition chat_height :: int where "chat_height = 920"

definition user_bubble_left :: int where "user_bubble_left = chat_left + chat_width - 650"
definition user_bubble_top :: int where "user_bubble_top = chat_top + 100"
definition user_bubble_width :: int where "user_bubble_width = 600"
definition user_bubble_height :: int where "user_bubble_height = 60"

definition agent_bubble_left :: int where "agent_bubble_left = chat_left + 50"
definition agent_bubble_top :: int where "agent_bubble_top = chat_top + 220"
definition agent_bubble_width :: int where "agent_bubble_width = 800"
definition agent_bubble_height :: int where "agent_bubble_height = 500"

definition preview_left :: int where "preview_left = chat_left + chat_width - 550"
definition preview_top :: int where "preview_top = chat_top + 200"
definition preview_width :: int where "preview_width = 500"
definition preview_height :: int where "preview_height = 600"

definition user_msg :: pystr where
  "user_msg = ascii ''Can you build me a todo app?''"

text \<open>
  The triple-quoted \<open>agent_response\<close>: twelve lines joined by line feeds (code point 10),
  with U+1F389 after the first sentence, U+2713 before each feature, and the apostrophes
  as code point 39.
\<close>

definition agent_response :: pystr where
  "agent_response =
     ascii ''I'' @ [39] @ ascii ''ve created your todo app! '' @ [0x1F389] @ [10] @
     [10] @
     ascii ''It'' @ [39] @ ascii ''s now live and ready to use at:'' @ [10] @
     ascii ''onhyper.io/a/your-todo-app'' @ [10] @
     [10] @
     ascii ''Features included:'' @ [10] @
     [0x2713] @ ascii '' Add, edit, delete todos'' @ [10] @
     [0x2713] @ ascii '' Mark as complete'' @ [10] @
     [0x2713] @ ascii '' Local storage persistence'' @ [10] @
     [0x2713] @ ascii '' Responsive design'' @ [10] @
     [10] @
     ascii ''Your app is deployed and ready!''"

text \<open>The typing cursor, U+258C.\<close>

definition cursor :: pystr where
  "cursor = [0x258C]"

definition todos :: "(pystr \<times> bool) list" where
  "todos =
     [([0x2610] @ ascii '' Build landing page'', True),
      ([0x2611] @ ascii '' Create API endpoints'', True),
      ([0x2610] @ ascii '' Add user auth'', False),
      ([0x2611] @ ascii '' Deploy to production'', True)]"

definition url_caption :: pystr where
  "url_caption = [0x1F517] @ ascii '' onhyper.io/a/your-todo-app''"

subsection \<open>Reveal state\<close>

text \<open>Line 99: the \<open>alpha\<close> of the user bubble.\<close>

definition user_alpha :: "pyfloat \<Rightarrow> int \<Rightarrow> pyfloat" where
  "user_alpha progress phase = (if phase = 0 then min 1 (progress * 4) else 1)"

text \<open>
  Line 146: \<open>chars_to_show\<close>, with the product \<open>progress * 1.5\<close> and the product with the
  length each rounded to a double; and lines 145 to 152: \<open>visible_text\<close>.
\<close>

definition chars_to_show :: "pyfloat \<Rightarrow> int" where
  "chars_to_show progress =
     py_int (float64 (of_nat (length agent_response) * min 1 (float64 (progress * (3 / 2)))))"

definition visible_text :: "pyfloat \<Rightarrow> int \<Rightarrow> pystr" where
  "visible_text progress phase =
     (if phase = 1
      then (let visible = slice_to agent_response (chars_to_show progress)
            in if chars_to_show progress < int (length agent_response)
               then visible @ cursor else visible)
      else agent_response)"

text \<open>Line 193: \<open>opacity\<close>, and the slice of \<open>todos\<close> that line 194 iterates over.\<close>

definition opacity :: "pyfloat \<Rightarrow> int \<Rightarrow> pyfloat" where
  "opacity progress phase = (if phase = 2 then min 1 (progress * 2) else 1)"

definition visible_todos :: "pyfloat \<Rightarrow> int \<Rightarrow> (pystr \<times> bool) list" where
  "visible_todos progress phase =
     slice_to todos (py_int (of_nat (length todos) * opacity progress phase))"

subsection \<open>The drawing loops\<close>

text \<open>Lines 157 to 160: one \<open>draw.text\<close> per line, 36 pixels apart.\<close>

fun draw_lines :: "font \<Rightarrow> pystr list \<Rightarrow> int \<Rightarrow> draw_op list" where
  "draw_lines text_font [] y_offset = []"
| "draw_lines text_font (line # rest) y_offset =
     Text (agent_bubble_left + 30, y_offset) line text_font WHITE
       # draw_lines text_font rest (y_offset + 36)"

text \<open>Lines 194 to 197: one \<open>draw.text\<close> per item, 50 pixels apart, coloured by \<open>done\<close>.\<close>

fun draw_todos :: "font \<Rightarrow> (pystr \<times> bool) list \<Rightarrow> int \<Rightarrow> draw_op list" where
  "draw_todos todo_font [] y_offset = []"
| "draw_todos todo_font ((todo, done) # rest) y_offset =
     Text (preview_left + 30, y_offset) todo todo_font (if done then CYAN else WHITE)
       # draw_todos todo_font rest (y_offset + 50)"

subsection \<open>The layers\<close>

text \<open>Lines 72 to 86: window, header bar, title and status.\<close>

definition draw_chrome :: "font_env \<Rightarrow> error + draw_op list" where
  "draw_chrome env =
     and_then (get_font env 28 True) (\<lambda>header_font.
     and_then (get_font env 20 False) (\<lambda>status_font.
       Inr [RoundedRectangle
              [chat_left, chat_top, chat_left + chat_width, chat_top + chat_height]
              20 DARK_BG (Some (50, 50, 80)) 2,
            Rectangle [chat_left, chat_top, chat_left + chat_width, chat_top + 60] (40, 40, 70),
            Text (chat_left + 30, chat_top + 15) (ascii ''OnHyper Agent Chat'') header_font WHITE,
            Text (chat_left + chat_width - 180, chat_top + 20)
              ([0x25CF] @ ascii '' Online'') status_font CYAN]))"

text \<open>
  Lines 88 to 110: the user bubble. \<open>alpha\<close> is assigned and not read again: the bubble,
  its text and its label are drawn with fixed RGB colours.
\<close>

definition draw_user_bubble :: "font_env \<Rightarrow> pyfloat \<Rightarrow> int \<Rightarrow> error + draw_op list" where
  "draw_user_bubble env progress phase =
     and_then (get_font env 26 False) (\<lambda>user_font.
       if phase \<ge> 0
       then (let alpha = user_alpha progress phase in
             and_then (get_font env 18 False) (\<lambda>label_font.
               Inr [RoundedRectangle
                      [user_bubble_left, user_bubble_top,
                       user_bubble_left + user_bubble_width, user_bubble_top + user_bubble_height]
                      15 (60, 60, 100) None 1,
                    Text (user_bubble_left + 20, user_bubble_top + 15) user_msg user_font WHITE,
                    Text (user_bubble_left + 20, user_bubble_top - 22) (ascii ''You'') label_font
                      (150, 150, 180)]))
       else Inr [])"

text \<open>Lines 118 to 160: the agent bubble with the typed response.\<close>

definition draw_agent_bubble :: "font_env \<Rightarrow> pyfloat \<Rightarrow> int \<Rightarrow> error + draw_op list" where
  "draw_agent_bubble env progress phase =
     (if phase \<ge> 1
      then and_then (get_font env 18 False) (\<lambda>label_font.
           and_then (get_font env 24 False) (\<lambda>text_font.
             Inr ([RoundedRectangle
                     [agent_bubble_left, agent_bubble_top,
                      agent_bubble_left + agent_bubble_width,
                      agent_bubble_top + agent_bubble_height]
                     15 (35, 35, 60) None 1,
                   Text (agent_bubble_left + 20, agent_bubble_top - 22)
                     ([0x1F916] @ ascii '' OnHyper Agent'') label_font CYAN]
                  @ draw_lines text_font (split_nl (visible_text progress phase))
                      (agent_bubble_top + 30))))
      else Inr [])"

text \<open>Lines 163 to 202: the app preview, its items and the URL caption.\<close>

definition draw_url :: "font_env \<Rightarrow> pyfloat \<Rightarrow> int \<Rightarrow> error + draw_op list" where
  "draw_url env progress phase =
     (if phase = 2 \<and> progress > 1 / 2
      then and_then (get_font env 18 False) (\<lambda>url_font.
             Inr [Text (preview_left + 30, preview_top + preview_height - 50)
                    url_caption url_font CYAN])
      else Inr [])"

definition draw_preview :: "font_env \<Rightarrow> pyfloat \<Rightarrow> int \<Rightarrow> error + draw_op list" where
  "draw_preview env progress phase =
     (if phase \<ge> 2
      then and_then (get_font env 22 True) (\<lambda>app_title_font.
           and_then (get_font env 20 False) (\<lambda>todo_font.
           and_then (draw_url env progress phase) (\<lambda>url_ops.
             Inr ([RoundedRectangle
                     [preview_left, preview_top,
                      preview_left + preview_width, preview_top + preview_height]
                     15 (25, 25, 50) (Some CYAN) 2,
                   Rectangle [preview_left, preview_top, preview_left + preview_width,
                              preview_top + 50] INDIGO,
                   Text (preview_left + 20, preview_top + 12)
                     ([0x1F4DD] @ ascii '' Your Todo App'') app_title_font WHITE]
                  @ draw_todos todo_font (visible_todos progress phase) (preview_top + 70)
                  @ url_ops))))
      else Inr [])"

definition create_chat_demo_frame :: "font_env \<Rightarrow> pyfloat \<Rightarrow> int \<Rightarrow> error + pil_image" where
  "create_chat_demo_frame env progress phase =
     and_then (draw_chrome env) (\<lambda>chrome.
     and_then (draw_user_bubble env progress phase) (\<lambda>user_layer.
     and_then (draw_agent_bubble env progress phase) (\<lambda>agent_layer.
     and_then (draw_preview env progress phase) (\<lambda>preview_layer.
       Inr \<lparr>im_size = (WIDTH, HEIGHT), im_background = DARKER_BG,
            im_drawn = chrome @ user_layer @ agent_layer @ preview_layer\<rparr>))))"



section \<open>What a frame shows\<close>

text \<open>
  Each layer of the frame writes its text at an anchor of its own, so the content of a
  layer is read back from the drawing calls by position. \<open>texts_at P img\<close> lists the
  string and colour of every \<open>draw.text\<close> call whose position satisfies \<open>P\<close>, in drawing
  order.
\<close>

fun texts_in :: "(int \<times> int \<Rightarrow> bool) \<Rightarrow> draw_op list \<Rightarrow> (pystr \<times> colour) list" where
  "texts_in P [] = []"
| "texts_in P (Text pos s f c # ops) =
     (if P pos then (s, c) # texts_in P ops else texts_in P ops)"
| "texts_in P (RoundedRectangle xy r fill outline w # ops) = texts_in P ops"
| "texts_in P (Rectangle xy fill # ops) = texts_in P ops"

definition texts_at :: "(int \<times> int \<Rightarrow> bool) \<Rightarrow> pil_image \<Rightarrow> (pystr \<times> colour) list" where
  "texts_at P img = texts_in P (im_drawn img)"

text \<open>Lines put back together with line feeds, the inverse of \<open>split_nl\<close>.\<close>

fun join_nl :: "pystr list \<Rightarrow> pystr" where
  "join_nl [] = []"
| "join_nl [l] = l"
| "join_nl (l # l' # ls) = l @ 10 # join_nl (l' # ls)"

text \<open>The agent's text as it stands in the frame: the lines drawn in the text column.\<close>

definition agent_column :: "int \<times> int \<Rightarrow> bool" where
  "agent_column pos = (fst pos = agent_bubble_left + 30)"

definition agent_text_shown :: "pil_image \<Rightarrow> pystr" where
  "agent_text_shown img = join_nl (map fst (texts_at agent_column img))"

text \<open>
  The preview items in the frame: the texts of the list column above the caption line,
  each with the colour it is drawn in.
\<close>

definition item_rows :: "int \<times> int \<Rightarrow> bool" where
  "item_rows pos =
     (fst pos = preview_left + 30 \<and> snd pos < preview_top + preview_height - 50)"

definition preview_items_shown :: "pil_image \<Rightarrow> (pystr \<times> colour) list" where
  "preview_items_shown img = texts_at item_rows img"

text \<open>The URL caption is in the frame when its text is drawn at the caption position.\<close>

definition caption_place :: "int \<times> int \<Rightarrow> bool" where
  "caption_place pos = (pos = (preview_left + 30, preview_top + preview_height - 50))"

definition url_caption_drawn :: "pil_image \<Rightarrow> bool" where
  "url_caption_drawn img = ((url_caption, CYAN) \<in> set (texts_at caption_place img))"

text \<open>
  The user bubble in the frame: the rounded rectangles drawn on the bubble's box. The
  image has mode RGB and a fill is an RGB triple, which \<open>ImageDraw\<close> writes over the pixels
  it covers: a shape that is drawn is drawn at full opacity, in its fill colour.
\<close>

definition user_bubble_box :: "int list" where
  "user_bubble_box =
     [user_bubble_left, user_bubble_top,
      user_bubble_left + user_bubble_width, user_bubble_top + user_bubble_height]"

fun fills_in :: "int list \<Rightarrow> draw_op list \<Rightarrow> colour list" where
  "fills_in box [] = []"
| "fills_in box (RoundedRectangle xy r fill outline w # ops) =
     (if xy = box then fill # fills_in box ops else fills_in box ops)"
| "fills_in box (Rectangle xy fill # ops) = fills_in box ops"
| "fills_in box (Text pos s f c # ops) = fills_in box ops"

definition user_bubble_fill :: "pil_image \<Rightarrow> colour list" where
  "user_bubble_fill img = fills_in user_bubble_box (im_drawn img)"

text \<open>The texts of the user bubble: its message and the label above it.\<close>

definition user_column :: "int \<times> int \<Rightarrow> bool" where
  "user_column pos = (fst pos = user_bubble_left + 20)"

definition user_texts_shown :: "pil_image \<Rightarrow> (pystr \<times> colour) list" where
  "user_texts_shown img = texts_at user_column img"

text \<open>
  A layer of colour \<open>c\<close> shown at opacity \<open>a\<close> over a backdrop \<open>b\<close> has the colour
  \<open>b + a * (c - b)\<close> in each channel. The backdrop of the user bubble is the chat window,
  filled with \<open>DARK_BG\<close>.
\<close>

definition channels :: "colour \<Rightarrow> real \<times> real \<times> real" where
  "channels c = (case c of (r, g, b) \<Rightarrow> (real r, real g, real b))"

definition shown_at :: "real \<Rightarrow> colour \<Rightarrow> colour \<Rightarrow> real \<times> real \<times> real" where
  "shown_at a c b =
     (case (c, b) of ((r, g, bl), (r', g', bl')) \<Rightarrow>
        (real r' + a * (real r - real r'),
         real g' + a * (real g - real g'),
         real bl' + a * (real bl - real bl')))"


section \<open>The frame sequences of \<open>main\<close>\<close>

subsection \<open>The chat demo\<close>

text \<open>
  A file written by the chat loop: the \<open>frame_idx\<close> of its name, the \<open>phase\<close> and
  \<open>progress\<close> it was rendered from, and the image.
\<close>

record chat_file =
  file_index :: int
  from_phase :: int
  from_progress :: pyfloat
  content :: pil_image

text \<open>
  The inner loop \<open>for i in range(frames)\<close> over the state \<open>frame_idx\<close> and the files
  written so far; an exception of the renderer ends the run.
\<close>

fun chat_inner ::
  "font_env \<Rightarrow> int \<Rightarrow> int \<Rightarrow> int list \<Rightarrow> int \<times> chat_file list \<Rightarrow> error + int \<times> chat_file list"
where
  "chat_inner env phase frames [] st = Inr st"
| "chat_inner env phase frames (i # rest) st =
     (let progress = of_int i / of_int frames in
      and_then (create_chat_demo_frame env progress phase) (\<lambda>frame.
        chat_inner env phase frames rest
          (fst st + 1,
           snd st @ [\<lparr>file_index = fst st, from_phase = phase,
                      from_progress = progress, content = frame\<rparr>])))"

text \<open>The outer loop \<open>for phase, frames in enumerate(phase_frames)\<close>.\<close>

fun chat_outer ::
  "font_env \<Rightarrow> (int \<times> int) list \<Rightarrow> int \<times> chat_file list \<Rightarrow> error + int \<times> chat_file list"
where
  "chat_outer env [] st = Inr st"
| "chat_outer env ((phase, frames) # rest) st =
     and_then (chat_inner env phase frames [0..frames - 1] st) (chat_outer env rest)"

text \<open>\<open>enumerate(xs)\<close>, counting from \<open>n\<close>.\<close>

fun enumerate_from :: "int \<Rightarrow> 'a list \<Rightarrow> (int \<times> 'a) list" where
  "enumerate_from n [] = []"
| "enumerate_from n (x # xs) = (n, x) # enumerate_from (n + 1) xs"

definition chat_frames :: "font_env \<Rightarrow> int list \<Rightarrow> error + chat_file list" where
  "chat_frames env phase_frames =
     and_then (chat_outer env (enumerate_from 0 phase_frames) (0, [])) (\<lambda>st. Inr (snd st))"

definition phase_frames :: "int list" where
  "phase_frames = [90, 180, 90]"

definition main_chat :: "font_env \<Rightarrow> error + chat_file list" where
  "main_chat env = chat_frames env phase_frames"

text \<open>The file \<open>chat/frame_k.png\<close> of a run, if the run wrote it.\<close>

definition chat_file_at :: "font_env \<Rightarrow> int \<Rightarrow> chat_file option" where
  "chat_file_at env k =
     (case main_chat env of
        Inl e \<Rightarrow> None
      | Inr files \<Rightarrow> List.find (\<lambda>f. file_index f = k) files)"

text \<open>
  The timeline of the two loops: the \<open>(phase, progress)\<close> pairs in the order in which the
  frames are rendered, phase after phase.
\<close>

fun schedule :: "(int \<times> int) list \<Rightarrow> (int \<times> pyfloat) list" where
  "schedule [] = []"
| "schedule ((phase, frames) # rest) =
     map (\<lambda>i. (phase, of_int i / of_int frames)) [0..frames - 1] @ schedule rest"

text \<open>
  \<open>logged env k sch fs\<close>: the files \<open>fs\<close> are numbered from \<open>k\<close> on without a gap, and each
  is the frame that \<open>create_chat_demo_frame\<close> returns for its entry of \<open>sch\<close>.
\<close>

fun logged :: "font_env \<Rightarrow> int \<Rightarrow> (int \<times> pyfloat) list \<Rightarrow> chat_file list \<Rightarrow> bool" where
  "logged env k [] [] = True"
| "logged env k (e # sch) (f # fs) =
     (file_index f = k \<and> from_phase f = fst e \<and> from_progress f = snd e \<and>
      create_chat_demo_frame env (snd e) (fst e) = Inr (content f) \<and>
      logged env (k + 1) sch fs)"
| "logged env k [] (f # fs) = False"
| "logged env k (e # sch) [] = False"

subsection \<open>The intro and outro slides\<close>

text \<open>
  For the fades an image is what it is as a raster: an RGB colour with channels of eight
  bits for every pixel position. \<open>Image.new\<close> gives the solid raster. \<open>Image.blend\<close> takes
  \<open>alpha\<close>, a Python float, as a C \<open>float\<close>; it returns the first image for 0 and the second
  for 1, and otherwise computes every channel in single precision as
  \<open>(UINT8)(in1 + alpha * (in2 - in1))\<close>: cut off towards zero for an \<open>alpha\<close> between 0 and
  1, clipped to 0 and 255 outside. The slide itself, the result of \<open>create_intro_slide\<close>
  or \<open>create_outro_slide\<close>, is any raster.
\<close>

type_synonym raster = "int \<times> int \<Rightarrow> colour"

definition new_image :: "colour \<Rightarrow> raster" where
  "new_image c = (\<lambda>pos. c)"

definition blend_channel :: "nat \<Rightarrow> nat \<Rightarrow> real \<Rightarrow> nat" where
  "blend_channel in1 in2 alpha =
     (let temp = float32 (real in1 + float32 (alpha * (real in2 - real in1)))
      in if 0 \<le> alpha \<and> alpha \<le> 1 then nat (py_int temp)
         else if temp \<le> 0 then 0
         else if 255 \<le> temp then 255
         else nat (py_int temp))"

definition blend_pixel :: "colour \<Rightarrow> colour \<Rightarrow> real \<Rightarrow> colour" where
  "blend_pixel p1 p2 alpha =
     (case (p1, p2) of ((r1, g1, b1), (r2, g2, b2)) \<Rightarrow>
        (blend_channel r1 r2 alpha, blend_channel g1 g2 alpha, blend_channel b1 b2 alpha))"

definition blend :: "raster \<Rightarrow> raster \<Rightarrow> pyfloat \<Rightarrow> raster" where
  "blend im1 im2 alpha =
     (let a = float32 (float64 alpha)
      in if a = 0 then im1
         else if a = 1 then im2
         else (\<lambda>pos. blend_pixel (im1 pos) (im2 pos) a))"




text \<open>The body of the intro loop (lines 244 to 248) and of the outro loop (273 to 277).\<close>

definition intro_frame :: "raster \<Rightarrow> int \<Rightarrow> raster" where
  "intro_frame intro_img i =
     (let frame = intro_img in
      if i < 30 then blend (new_image DARK_BG) frame (of_int i / 30)
      else if i > 120 then blend frame (new_image DARK_BG) (of_int (i - 120) / 30)
      else frame)"

definition outro_frame :: "raster \<Rightarrow> int \<Rightarrow> raster" where
  "outro_frame outro_img i =
     (let frame = outro_img in
      if i < 30 then blend (new_image DARK_BG) frame (of_int i / 30)
      else if i > 150 then blend frame (new_image DARK_BG) (of_int (i - 150) / 30)
      else frame)"

text \<open>The files of the two loops, \<open>range(150)\<close> and \<open>range(180)\<close>, by index.\<close>

definition main_intro :: "raster \<Rightarrow> (int \<times> raster) list" where
  "main_intro intro_img = map (\<lambda>i. (i, intro_frame intro_img i)) [0..149]"

definition main_outro :: "raster \<Rightarrow> (int \<times> raster) list" where
  "main_outro outro_img = map (\<lambda>i. (i, outro_frame outro_img i)) [0..179]"

text \<open>
  The fade envelope in the words of the specification, section 4.4:
  \<open>fade(frame_image, background, frame_index, fade_in_len, fade_out_len, total_len)\<close>.
\<close>

definition spec_fade :: "raster \<Rightarrow> raster \<Rightarrow> int \<Rightarrow> int \<Rightarrow> int \<Rightarrow> int \<Rightarrow> raster" where
  "spec_fade frame_image background frame_index fade_in_len fade_out_len total_len =
     (if frame_index < fade_in_len
      then blend background frame_image (of_int frame_index / of_int fade_in_len)
      else if frame_index > total_len - fade_out_len
      then blend frame_image background
             (of_int (frame_index - (total_len - fade_out_len)) / of_int fade_out_len)
      else frame_image)"


section \<open>Results on rounding\<close>

lemma powi_two_Suc: "(2 :: real) powi (n + 1) = 2 powi n * 2"
  by (simp add: power_int_add)

lemma halvings_bounds:
  assumes "1 \<le> x"
  shows "0 \<le> halvings x \<and> 2 powi (halvings x) \<le> x \<and> x < 2 powi (halvings x + 1)"
  using assms
proof (induction x rule: halvings.induct)
  case (1 x)
  show ?case
  proof (cases "x < 2")
    case True
    then have "halvings x = 0" by (simp add: halvings.simps)
    with True 1(2) show ?thesis by simp
  next
    case False
    then have h: "halvings x = halvings (x / 2) + 1"
      by (subst halvings.simps) simp
    have "1 \<le> x / 2" using False by simp
    from 1(1) [OF False this]
    have ih: "0 \<le> halvings (x / 2)" "2 powi (halvings (x / 2)) \<le> x / 2"
      "x / 2 < 2 powi (halvings (x / 2) + 1)"
      by simp_all
    have a: "2 powi (halvings (x / 2) + 1) = 2 powi (halvings (x / 2)) * (2 :: real)"
      by (simp add: power_int_add)
    have b: "2 powi (halvings (x / 2) + 1 + 1) = 2 powi (halvings (x / 2) + 1) * (2 :: real)"
      by (simp add: power_int_add)
    from ih a b show ?thesis unfolding h by simp
  qed
qed

lemma doublings_bounds:
  assumes "0 < x" and "x < 1"
  shows "2 powi (- doublings x) \<le> x \<and> x < 2 powi (- doublings x + 1)"
  using assms
proof (induction x rule: doublings.induct)
  case (1 x)
  then have g: "\<not> (x \<le> 0 \<or> 1 \<le> x)" by simp
  then have h: "doublings x = doublings (x * 2) + 1"
    by (subst doublings.simps) simp
  show ?case
  proof (cases "x * 2 < 1")
    case True
    from 1(1) [OF g _ True] 1(2)
    have ih: "2 powi (- doublings (x * 2)) \<le> x * 2"
      "x * 2 < 2 powi (- doublings (x * 2) + 1)"
      by simp_all
    have a: "2 powi (- doublings (x * 2)) = 2 powi (- (doublings (x * 2) + 1)) * (2 :: real)"
      using powi_two_Suc [of "- (doublings (x * 2) + 1)"] by simp
    have b: "2 powi (- doublings (x * 2) + 1) = 2 powi (- (doublings (x * 2) + 1) + 1) * (2 :: real)"
      using powi_two_Suc [of "- doublings (x * 2)"] by simp
    from ih a b show ?thesis unfolding h by simp
  next
    case False
    then have "doublings (x * 2) = 0" by (subst doublings.simps) simp
    with h have d: "doublings x = 1" by simp
    from False 1(3) show ?thesis unfolding d by simp
  qed
qed

lemma exponent_bounds:
  assumes "0 < x"
  shows "2 powi (exponent x) \<le> x \<and> x < 2 powi (exponent x + 1)"
proof (cases "1 \<le> x")
  case True
  with halvings_bounds [OF True] show ?thesis by (simp add: exponent_def)
next
  case False
  with doublings_bounds [OF assms] show ?thesis by (simp add: exponent_def)
qed

lemma powi_two_less:
  fixes a b :: int
  assumes "(2 :: real) powi a < 2 powi b"
  shows "a < b"
proof (rule ccontr)
  assume "\<not> a < b"
  then have "b \<le> a" by simp
  then have "(2 :: real) powi b \<le> 2 powi a"
    by (intro power_int_increasing) simp_all
  with assms show False by simp
qed

lemma exponent_unique:
  assumes "0 < x" and "2 powi e \<le> x" and "x < 2 powi (e + 1)"
  shows "exponent x = e"
proof -
  note b = exponent_bounds [OF assms(1)]
  have "(2 :: real) powi e < 2 powi (exponent x + 1)" using assms(2) b by simp
  then have "e < exponent x + 1" by (rule powi_two_less)
  moreover have "(2 :: real) powi (exponent x) < 2 powi (e + 1)" using assms(3) b by simp
  then have "exponent x < e + 1" by (rule powi_two_less)
  ultimately show ?thesis by simp
qed

lemma exponent_mono:
  assumes "0 < x" and "x \<le> y"
  shows "exponent x \<le> exponent y"
proof -
  have y: "0 < y" using assms by simp
  have "(2 :: real) powi (exponent x) < 2 powi (exponent y + 1)"
    using exponent_bounds [OF assms(1)] exponent_bounds [OF y] assms(2) by simp
  then have "exponent x < exponent y + 1" by (rule powi_two_less)
  then show ?thesis by simp
qed


lemma rhe_of_int: "round_half_even (of_int k) = k"
  by (simp add: round_half_even_def)

lemma rhe_between:
  "\<lfloor>x\<rfloor> \<le> round_half_even x \<and> round_half_even x \<le> \<lfloor>x\<rfloor> + 1"
  by (simp add: round_half_even_def Let_def)

lemma rhe_mono:
  assumes "x \<le> y"
  shows "round_half_even x \<le> round_half_even y"
proof (cases "\<lfloor>x\<rfloor> = \<lfloor>y\<rfloor>")
  case True
  with assms show ?thesis
    by (auto simp: round_half_even_def Let_def)
next
  case False
  moreover have "\<lfloor>x\<rfloor> \<le> \<lfloor>y\<rfloor>" using assms by (rule floor_mono)
  ultimately have "\<lfloor>x\<rfloor> + 1 \<le> \<lfloor>y\<rfloor>" by simp
  with rhe_between [of x] rhe_between [of y] show ?thesis by linarith
qed

lemma round_to_pos:
  assumes "0 < x"
  shows "round_to p x =
           of_int (round_half_even (x / 2 powi (exponent x - int p + 1)))
             * 2 powi (exponent x - int p + 1)"
  using assms by (simp add: round_to_def Let_def)

lemma round_to_minus: "round_to p (- x) = - round_to p x"
  by (simp add: round_to_def Let_def sgn_minus)

lemma round_to_zero: "round_to p 0 = 0"
  by (simp add: round_to_def)

lemma ulp_pos: "0 < (2 :: real) powi n"
  by simp

lemma round_to_range:
  assumes "0 < x" and "1 \<le> p"
  shows "2 powi (exponent x) \<le> round_to p x \<and> round_to p x \<le> 2 powi (exponent x + 1)"
proof -
  define e where "e = exponent x"
  define u :: real where "u = 2 powi (e - int p + 1)"
  have u: "0 < u" by (simp add: u_def)
  have b: "2 powi e \<le> x" "x < 2 powi (e + 1)"
    using exponent_bounds [OF assms(1)] by (simp_all add: e_def)
  have lo: "2 powi e = of_int (2 ^ (p - 1)) * u"
  proof -
    have "(2 :: real) powi e = 2 powi (int p - 1) * 2 powi (e - int p + 1)"
      by (simp add: power_int_add [symmetric])
    moreover have "(2 :: real) powi (int p - 1) = 2 ^ (p - 1)"
      using assms(2) by (simp add: power_int_def nat_diff_distrib')
    ultimately show ?thesis by (simp add: u_def)
  qed
  have hi: "2 powi (e + 1) = of_int (2 ^ p) * u"
  proof -
    have "(2 :: real) powi (int p + (e - int p + 1)) = 2 powi (int p) * 2 powi (e - int p + 1)"
      by (rule power_int_add) simp
    moreover have "int p + (e - int p + 1) = e + 1" by simp
    ultimately show ?thesis by (simp add: u_def)
  qed
  have "of_int (2 ^ (p - 1)) \<le> x / u"
    using b(1) u unfolding lo by (simp add: field_simps)
  then have "round_half_even (of_int (2 ^ (p - 1))) \<le> round_half_even (x / u)"
    by (rule rhe_mono)
  then have r1: "(2 :: int) ^ (p - 1) \<le> round_half_even (x / u)"
    by (simp only: rhe_of_int)
  have "x / u \<le> of_int (2 ^ p)"
    using b(2) u unfolding hi by (simp add: field_simps)
  then have "round_half_even (x / u) \<le> round_half_even (of_int (2 ^ p))"
    by (rule rhe_mono)
  then have r2: "round_half_even (x / u) \<le> (2 :: int) ^ p"
    by (simp only: rhe_of_int)
  have r: "round_to p x = of_int (round_half_even (x / u)) * u"
    using round_to_pos [OF assms(1), of p] by (simp add: u_def e_def)
  have "of_int (2 ^ (p - 1)) * u \<le> of_int (round_half_even (x / u)) * u"
    using r1 u by (intro mult_right_mono) (simp_all add: of_int_le_iff [symmetric] del: of_int_le_iff)
  moreover have "of_int (round_half_even (x / u)) * u \<le> of_int (2 ^ p) * u"
    using r2 u by (intro mult_right_mono) (simp_all add: of_int_le_iff [symmetric] del: of_int_le_iff)
  ultimately show ?thesis
    unfolding r e_def [symmetric] lo hi by simp
qed

lemma round_to_mono_pos:
  assumes "0 < x" and "x \<le> y" and "1 \<le> p"
  shows "round_to p x \<le> round_to p y"
proof -
  have y: "0 < y" using assms by simp
  have le: "exponent x \<le> exponent y" by (rule exponent_mono [OF assms(1,2)])
  show ?thesis
  proof (cases "exponent x = exponent y")
    case True
    define u :: real where "u = 2 powi (exponent x - int p + 1)"
    have u: "0 < u" by (simp add: u_def)
    have "x / u \<le> y / u" using assms(2) u by (simp add: divide_right_mono)
    then have "round_half_even (x / u) \<le> round_half_even (y / u)" by (rule rhe_mono)
    then have "(of_int (round_half_even (x / u)) :: real) \<le> of_int (round_half_even (y / u))"
      by simp
    then have "of_int (round_half_even (x / u)) * u \<le> of_int (round_half_even (y / u)) * u"
      using u by (intro mult_right_mono) simp_all
    then show ?thesis
      using round_to_pos [OF assms(1), of p] round_to_pos [OF y, of p] True
      by (simp add: u_def)
  next
    case False
    with le have "exponent x + 1 \<le> exponent y" by simp
    then have "(2 :: real) powi (exponent x + 1) \<le> 2 powi (exponent y)"
      by (intro power_int_increasing) simp_all
    with round_to_range [OF assms(1,3)] round_to_range [OF y assms(3)] show ?thesis
      by linarith
  qed
qed

lemma round_to_nonneg:
  assumes "0 \<le> x" and "1 \<le> p"
  shows "0 \<le> round_to p x"
proof (cases "x = 0")
  case True
  then show ?thesis by (simp add: round_to_zero)
next
  case False
  with assms have "0 < x" by simp
  from round_to_range [OF this assms(2)] show ?thesis
    using ulp_pos [of "exponent x"] by linarith
qed

lemma round_to_mono:
  assumes "x \<le> y" and "1 \<le> p"
  shows "round_to p x \<le> round_to p y"
proof -
  consider (pos) "0 < x" | (mid) "x \<le> 0" "0 \<le> y" | (neg) "y < 0"
    using assms(1) by linarith
  then show ?thesis
  proof cases
    case pos
    then show ?thesis by (rule round_to_mono_pos [OF _ assms])
  next
    case mid
    have "0 \<le> round_to p (- x)" by (rule round_to_nonneg) (use mid assms in simp_all)
    then have "round_to p x \<le> 0" by (simp add: round_to_minus)
    moreover have "0 \<le> round_to p y" by (rule round_to_nonneg) (use mid assms in simp_all)
    ultimately show ?thesis by simp
  next
    case neg
    have "round_to p (- y) \<le> round_to p (- x)"
      by (rule round_to_mono_pos) (use neg assms in simp_all)
    then show ?thesis by (simp add: round_to_minus)
  qed
qed



lemma float64_mono: "x \<le> y \<Longrightarrow> float64 x \<le> float64 y"
  by (simp add: float64_def round_to_mono)


lemmas float_eval =
  float64_def float32_def round_to_def exponent_def round_half_even_def Let_def
  halvings.simps doublings.simps

lemma float64_0: "float64 0 = 0"
  by (simp add: float64_def round_to_zero)

lemma float64_1: "float64 1 = 1"
  by (simp add: float_eval)

lemma float64_238: "float64 238 = 238"
  by (simp add: float_eval)


section \<open>Results on font resolution\<close>

lemma get_font_loop_find:
  "get_font_loop env ps sz =
     (case List.find (loadable env sz) ps of
        Some p \<Rightarrow> truetype env p sz
      | None \<Rightarrow> load_default env)"
  by (induction ps) (auto simp: loadable_def split: sum.splits)

lemma get_font_loop_Inr:
  assumes "load_default env = Inr d"
  shows "\<exists>f. get_font_loop env ps sz = Inr f"
  using assms by (induction ps) (auto split: sum.splits)

lemma get_font_resolved:
  assumes "load_default env = Inr d"
  shows "get_font env sz bold = Inr (resolved env d sz bold)"
proof (cases "List.find (loadable env sz) (font_names bold)")
  case None
  then show ?thesis
    using assms by (simp add: get_font_def get_font_loop_find resolved_def)
next
  case (Some p)
  then have "loadable env sz p"
    by (auto simp: find_Some_iff)
  then obtain f where "truetype env p sz = Inr f"
    by (cases "truetype env p sz") (auto simp: loadable_def)
  with Some show ?thesis
    by (simp add: get_font_def get_font_loop_find resolved_def)
qed

text \<open>
  C9. \<open>get_font\<close> walks the platform font paths in order and returns the font of the first
  one that exists and loads; an exception of the loader is never passed on. When no path
  is usable the result is that of the built-in default font, so with the default font
  available \<open>get_font\<close> returns a font for every size and bold flag, whatever the file
  system holds.
\<close>

theorem get_font_never_raises:
  assumes "load_default env = Inr d"
  shows "(\<exists>f. get_font env sz bold = Inr f) \<and>
         get_font env sz bold =
           (case List.find (loadable env sz) (font_names bold) of
              Some p \<Rightarrow> truetype env p sz
            | None \<Rightarrow> Inr d)"
  using assms get_font_loop_Inr [OF assms, of "font_names bold" sz]
  by (simp add: get_font_def get_font_loop_find split: option.splits)

theorem get_font_never_raises_witness:
  "load_default broken_fonts_env = Inr DefaultFont \<and>
   get_font broken_fonts_env 24 True = Inr DefaultFont \<and>
   get_font no_fonts_env 24 False = Inr DefaultFont"
proof -
  have a: "load_default broken_fonts_env = Inr DefaultFont"
    by (simp add: broken_fonts_env_def)
  have b: "load_default no_fonts_env = Inr DefaultFont"
    by (simp add: no_fonts_env_def)
  have "get_font broken_fonts_env 24 True = Inr DefaultFont"
    using get_font_never_raises [OF a, of 24 True]
    by (simp add: broken_fonts_env_def loadable_def font_names_def)
  moreover have "get_font no_fonts_env 24 False = Inr DefaultFont"
    using get_font_never_raises [OF b, of 24 False]
    by (simp add: no_fonts_env_def loadable_def font_names_def)
  ultimately show ?thesis using a by simp
qed


section \<open>Results on the layers of a frame\<close>

lemmas layout_defs =
  chat_left_def chat_top_def chat_width_def chat_height_def
  user_bubble_left_def user_bubble_top_def user_bubble_width_def user_bubble_height_def
  agent_bubble_left_def agent_bubble_top_def agent_bubble_width_def agent_bubble_height_def
  preview_left_def preview_top_def preview_width_def preview_height_def

lemmas place_defs =
  agent_column_def item_rows_def caption_place_def user_column_def user_bubble_box_def

lemma len_agent: "length agent_response = 238"
  by (simp add: agent_response_def ascii_def)

lemma len_todos: "length todos = 4"
  by (simp add: todos_def)

lemma split_nl_ne: "split_nl s \<noteq> []"
  by (induction s) (auto split: list.splits)

lemma join_split: "join_nl (split_nl s) = s"
proof (induction s)
  case Nil
  then show ?case by simp
next
  case (Cons c cs)
  obtain l ls where e: "split_nl cs = l # ls"
    using split_nl_ne [of cs] by (cases "split_nl cs") auto
  show ?case
  proof (cases "c = 10")
    case True
    with Cons e show ?thesis by simp
  next
    case False
    with Cons e show ?thesis by (cases ls) auto
  qed
qed

lemma texts_in_append: "texts_in P (xs @ ys) = texts_in P xs @ texts_in P ys"
  by (induction P xs rule: texts_in.induct) auto

lemma fills_in_append: "fills_in box (xs @ ys) = fills_in box xs @ fills_in box ys"
  by (induction box xs rule: fills_in.induct) auto

lemma texts_lines_in:
  assumes "\<And>y. P (agent_bubble_left + 30, y)"
  shows "texts_in P (draw_lines f ls y) = map (\<lambda>l. (l, WHITE)) ls"
  using assms by (induction ls arbitrary: y) auto

lemma texts_lines_out:
  assumes "\<And>y. \<not> P (agent_bubble_left + 30, y)"
  shows "texts_in P (draw_lines f ls y) = []"
  using assms by (induction ls arbitrary: y) auto

lemma texts_todos_out:
  assumes "\<And>y'. y \<le> y' \<Longrightarrow> y' < y + 50 * int (length ts) \<Longrightarrow> \<not> P (preview_left + 30, y')"
  shows "texts_in P (draw_todos f ts y) = []"
  using assms
proof (induction ts arbitrary: y)
  case Nil
  then show ?case by simp
next
  case (Cons t ts)
  obtain todo dn where t: "t = (todo, dn)" by (cases t)
  have a: "\<not> P (preview_left + 30, y)"
    using Cons.prems [of y] by simp
  have "texts_in P (draw_todos f ts (y + 50)) = []"
    by (rule Cons.IH) (use Cons.prems in auto)
  with a t show ?case by simp
qed

lemma texts_todos_in:
  assumes "\<And>y'. y \<le> y' \<Longrightarrow> y' < y + 50 * int (length ts) \<Longrightarrow> P (preview_left + 30, y')"
  shows "texts_in P (draw_todos f ts y) =
           map (\<lambda>t. (fst t, if snd t then CYAN else WHITE)) ts"
  using assms
proof (induction ts arbitrary: y)
  case Nil
  then show ?case by simp
next
  case (Cons t ts)
  obtain todo dn where t: "t = (todo, dn)" by (cases t)
  have a: "P (preview_left + 30, y)"
    using Cons.prems [of y] by simp
  have "texts_in P (draw_todos f ts (y + 50)) =
          map (\<lambda>t. (fst t, if snd t then CYAN else WHITE)) ts"
    by (rule Cons.IH) (use Cons.prems in auto)
  with a t show ?case by simp
qed

lemma fills_lines: "fills_in box (draw_lines f ls y) = []"
  by (induction ls arbitrary: y) auto

lemma fills_todos: "fills_in box (draw_todos f ts y) = []"
  by (induction f ts y rule: draw_todos.induct) auto

lemma len_slice_to: "length (slice_to xs n) \<le> length xs"
  by (auto simp: slice_to_def)

lemma len_visible_todos: "length (visible_todos progress phase) \<le> 4"
  using len_slice_to [of todos] by (simp add: visible_todos_def len_todos)

lemma chrome_ok:
  assumes "load_default env = Inr d"
  shows "\<exists>ops. draw_chrome env = Inr ops \<and>
           texts_in agent_column ops = [] \<and>
           texts_in item_rows ops = [] \<and>
           texts_in caption_place ops = [] \<and>
           texts_in user_column ops = [] \<and>
           fills_in user_bubble_box ops = []"
  by (simp add: draw_chrome_def and_then_def get_font_resolved [OF assms] place_defs layout_defs)

lemma user_ok:
  assumes "load_default env = Inr d"
  shows "\<exists>ops. draw_user_bubble env progress phase = Inr ops \<and>
           texts_in agent_column ops = [] \<and>
           texts_in item_rows ops = [] \<and>
           texts_in caption_place ops = [] \<and>
           texts_in user_column ops =
             (if 0 \<le> phase then [(user_msg, WHITE), (ascii ''You'', (150, 150, 180))] else []) \<and>
           fills_in user_bubble_box ops = (if 0 \<le> phase then [(60, 60, 100)] else [])"
  by (simp add: draw_user_bubble_def and_then_def get_font_resolved [OF assms] place_defs layout_defs)

lemma agent_ok:
  assumes "load_default env = Inr d"
  shows "\<exists>ops. draw_agent_bubble env progress phase = Inr ops \<and>
           texts_in agent_column ops =
             (if 1 \<le> phase then map (\<lambda>l. (l, WHITE)) (split_nl (visible_text progress phase))
              else []) \<and>
           texts_in item_rows ops = [] \<and>
           texts_in caption_place ops = [] \<and>
           texts_in user_column ops = [] \<and>
           fills_in user_bubble_box ops = []"
proof (cases "1 \<le> phase")
  case False
  then show ?thesis by (simp add: draw_agent_bubble_def)
next
  case True
  let ?ls = "split_nl (visible_text progress phase)"
  let ?f = "resolved env d 24 False"
  let ?y = "agent_bubble_top + 30"
  have a: "texts_in agent_column (draw_lines ?f ?ls ?y) = map (\<lambda>l. (l, WHITE)) ?ls"
    by (rule texts_lines_in) (simp add: agent_column_def)
  have b: "texts_in item_rows (draw_lines ?f ?ls ?y) = []"
    by (rule texts_lines_out) (simp add: item_rows_def layout_defs)
  have c: "texts_in caption_place (draw_lines ?f ?ls ?y) = []"
    by (rule texts_lines_out) (simp add: caption_place_def layout_defs)
  have e: "texts_in user_column (draw_lines ?f ?ls ?y) = []"
    by (rule texts_lines_out) (simp add: user_column_def layout_defs)
  define hd_ops where "hd_ops = [RoundedRectangle
                     [agent_bubble_left, agent_bubble_top,
                      agent_bubble_left + agent_bubble_width,
                      agent_bubble_top + agent_bubble_height]
                     15 (35, 35, 60) None 1,
                   Text (agent_bubble_left + 20, agent_bubble_top - 22)
                     ([0x1F916] @ ascii '' OnHyper Agent'') (resolved env d 18 False) CYAN]"
  have hd: "texts_in agent_column hd_ops = []" "texts_in item_rows hd_ops = []"
    "texts_in caption_place hd_ops = []" "texts_in user_column hd_ops = []"
    "fills_in user_bubble_box hd_ops = []"
    by (simp_all add: hd_ops_def place_defs layout_defs)
  have "draw_agent_bubble env progress phase = Inr (hd_ops @ draw_lines ?f ?ls ?y)"
    using True by (simp add: draw_agent_bubble_def and_then_def get_font_resolved [OF assms] hd_ops_def)
  with True a b c e hd show ?thesis
    by (simp add: texts_in_append fills_in_append fills_lines)
qed


lemma url_ok:
  assumes "load_default env = Inr d"
  shows "draw_url env progress phase =
           Inr (if phase = 2 \<and> progress > 1 / 2
                then [Text (preview_left + 30, preview_top + preview_height - 50)
                        url_caption (resolved env d 18 False) CYAN]
                else [])"
  by (simp add: draw_url_def and_then_def get_font_resolved [OF assms])

lemma preview_ok:
  assumes "load_default env = Inr d"
  shows "\<exists>ops. draw_preview env progress phase = Inr ops \<and>
           texts_in agent_column ops = [] \<and>
           texts_in item_rows ops =
             (if 2 \<le> phase
              then map (\<lambda>t. (fst t, if snd t then CYAN else WHITE)) (visible_todos progress phase)
              else []) \<and>
           texts_in caption_place ops =
             (if phase = 2 \<and> progress > 1 / 2 then [(url_caption, CYAN)] else []) \<and>
           texts_in user_column ops = [] \<and>
           fills_in user_bubble_box ops = []"
proof (cases "2 \<le> phase")
  case False
  then show ?thesis by (simp add: draw_preview_def)
next
  case True
  let ?ts = "visible_todos progress phase"
  let ?f = "resolved env d 20 False"
  let ?y = "preview_top + 70"
  have n: "int (length ?ts) \<le> 4"
    using len_visible_todos [of progress phase] by simp
  have a: "texts_in agent_column (draw_todos ?f ?ts ?y) = []"
    by (rule texts_todos_out) (simp add: agent_column_def layout_defs)
  have b: "texts_in item_rows (draw_todos ?f ?ts ?y) =
             map (\<lambda>t. (fst t, if snd t then CYAN else WHITE)) ?ts"
    by (rule texts_todos_in) (use n in \<open>simp add: item_rows_def layout_defs\<close>)
  have c: "texts_in caption_place (draw_todos ?f ?ts ?y) = []"
    by (rule texts_todos_out) (use n in \<open>simp add: caption_place_def layout_defs\<close>)
  have e: "texts_in user_column (draw_todos ?f ?ts ?y) = []"
    by (rule texts_todos_out) (simp add: user_column_def layout_defs)
  define hd_ops where "hd_ops =
     [RoundedRectangle
        [preview_left, preview_top, preview_left + preview_width, preview_top + preview_height]
        15 (25, 25, 50) (Some CYAN) 2,
      Rectangle [preview_left, preview_top, preview_left + preview_width, preview_top + 50] INDIGO,
      Text (preview_left + 20, preview_top + 12)
        ([0x1F4DD] @ ascii '' Your Todo App'') (resolved env d 22 True) WHITE]"
  define url_ops where "url_ops =
     (if phase = 2 \<and> progress > 1 / 2
      then [Text (preview_left + 30, preview_top + preview_height - 50)
              url_caption (resolved env d 18 False) CYAN]
      else [])"
  have hd: "texts_in agent_column hd_ops = []" "texts_in item_rows hd_ops = []"
    "texts_in caption_place hd_ops = []" "texts_in user_column hd_ops = []"
    "fills_in user_bubble_box hd_ops = []"
    by (simp_all add: hd_ops_def place_defs layout_defs)
  have url: "texts_in agent_column url_ops = []" "texts_in item_rows url_ops = []"
    "texts_in caption_place url_ops =
       (if phase = 2 \<and> progress > 1 / 2 then [(url_caption, CYAN)] else [])"
    "texts_in user_column url_ops = []"
    "fills_in user_bubble_box url_ops = []"
    by (simp_all add: url_ops_def place_defs layout_defs)
  have "draw_preview env progress phase = Inr (hd_ops @ draw_todos ?f ?ts ?y @ url_ops)"
    using True
    by (simp add: draw_preview_def and_then_def get_font_resolved [OF assms] url_ok [OF assms]
        hd_ops_def url_ops_def)
  with True a b c e hd url show ?thesis
    by (simp add: texts_in_append fills_in_append fills_todos)
qed

lemma frame_ok:
  assumes "load_default env = Inr d"
  shows "\<exists>img. create_chat_demo_frame env progress phase = Inr img \<and>
           texts_at agent_column img =
             (if 1 \<le> phase then map (\<lambda>l. (l, WHITE)) (split_nl (visible_text progress phase))
              else []) \<and>
           texts_at item_rows img =
             (if 2 \<le> phase
              then map (\<lambda>t. (fst t, if snd t then CYAN else WHITE)) (visible_todos progress phase)
              else []) \<and>
           texts_at caption_place img =
             (if phase = 2 \<and> progress > 1 / 2 then [(url_caption, CYAN)] else []) \<and>
           texts_at user_column img =
             (if 0 \<le> phase then [(user_msg, WHITE), (ascii ''You'', (150, 150, 180))] else []) \<and>
           fills_in user_bubble_box (im_drawn img) = (if 0 \<le> phase then [(60, 60, 100)] else [])"
proof -
  obtain c where c: "draw_chrome env = Inr c"
    "texts_in agent_column c = []" "texts_in item_rows c = []" "texts_in caption_place c = []"
    "texts_in user_column c = []" "fills_in user_bubble_box c = []"
    using chrome_ok [OF assms] by blast
  obtain u where u: "draw_user_bubble env progress phase = Inr u"
    "texts_in agent_column u = []" "texts_in item_rows u = []" "texts_in caption_place u = []"
    "texts_in user_column u =
       (if 0 \<le> phase then [(user_msg, WHITE), (ascii ''You'', (150, 150, 180))] else [])"
    "fills_in user_bubble_box u = (if 0 \<le> phase then [(60, 60, 100)] else [])"
    using user_ok [OF assms, of progress phase] by blast
  obtain a where a: "draw_agent_bubble env progress phase = Inr a"
    "texts_in agent_column a =
       (if 1 \<le> phase then map (\<lambda>l. (l, WHITE)) (split_nl (visible_text progress phase)) else [])"
    "texts_in item_rows a = []" "texts_in caption_place a = []"
    "texts_in user_column a = []" "fills_in user_bubble_box a = []"
    using agent_ok [OF assms, of progress phase] by blast
  obtain p where p: "draw_preview env progress phase = Inr p"
    "texts_in agent_column p = []"
    "texts_in item_rows p =
       (if 2 \<le> phase
        then map (\<lambda>t. (fst t, if snd t then CYAN else WHITE)) (visible_todos progress phase)
        else [])"
    "texts_in caption_place p =
       (if phase = 2 \<and> progress > 1 / 2 then [(url_caption, CYAN)] else [])"
    "texts_in user_column p = []" "fills_in user_bubble_box p = []"
    using preview_ok [OF assms, of progress phase] by blast
  have "create_chat_demo_frame env progress phase =
          Inr \<lparr>im_size = (WIDTH, HEIGHT), im_background = DARKER_BG, im_drawn = c @ u @ a @ p\<rparr>"
    by (simp add: create_chat_demo_frame_def and_then_def c(1) u(1) a(1) p(1))
  then show ?thesis
    by (simp add: texts_at_def texts_in_append fills_in_append c u a p)
qed

lemma default_no_fonts: "load_default no_fonts_env = Inr DefaultFont"
  by (simp add: no_fonts_env_def)

lemma frame_phase0:
  "create_chat_demo_frame env progress 0 = create_chat_demo_frame env progress' 0"
  by (simp add: create_chat_demo_frame_def draw_user_bubble_def draw_agent_bubble_def
      draw_preview_def Let_def)


section \<open>Results on the reveal arithmetic\<close>

lemma py_int_nonneg: "0 \<le> x \<Longrightarrow> py_int x = \<lfloor>x\<rfloor>"
  by (simp add: py_int_def)

lemma py_int_mono:
  assumes "x \<le> y"
  shows "py_int x \<le> py_int y"
proof (cases "0 \<le> x")
  case True
  with assms show ?thesis by (simp add: py_int_def floor_mono)
next
  case False
  show ?thesis
  proof (cases "0 \<le> y")
    case True
    have "\<lceil>x\<rceil> \<le> 0" using False by (simp add: ceiling_le_iff)
    moreover have "0 \<le> \<lfloor>y\<rfloor>" using True by simp
    moreover have "py_int x = \<lceil>x\<rceil>" "py_int y = \<lfloor>y\<rfloor>"
      using False True by (simp_all add: py_int_def)
    ultimately show ?thesis by linarith
  next
    case y: False
    with False assms show ?thesis by (simp add: py_int_def ceiling_mono)
  qed
qed

lemma reveal_factor_range:
  assumes "0 \<le> progress"
  shows "0 \<le> 238 * min 1 (float64 (progress * (3 / 2)))"
    and "238 * min 1 (float64 (progress * (3 / 2))) \<le> 238"
proof -
  have "float64 0 \<le> float64 (progress * (3 / 2))"
    by (rule float64_mono) (use assms in simp)
  then have "0 \<le> float64 (progress * (3 / 2))" by (simp add: float64_0)
  then show "0 \<le> 238 * min 1 (float64 (progress * (3 / 2)))" by simp
  show "238 * min 1 (float64 (progress * (3 / 2))) \<le> 238" by simp
qed

lemma reveal_product_range:
  assumes "0 \<le> progress"
  shows "0 \<le> float64 (238 * min 1 (float64 (progress * (3 / 2))))"
    and "float64 (238 * min 1 (float64 (progress * (3 / 2)))) \<le> 238"
proof -
  have "float64 0 \<le> float64 (238 * min 1 (float64 (progress * (3 / 2))))"
    by (rule float64_mono) (rule reveal_factor_range [OF assms])
  then show "0 \<le> float64 (238 * min 1 (float64 (progress * (3 / 2))))"
    by (simp add: float64_0)
  have "float64 (238 * min 1 (float64 (progress * (3 / 2)))) \<le> float64 238"
    by (rule float64_mono) (rule reveal_factor_range [OF assms])
  then show "float64 (238 * min 1 (float64 (progress * (3 / 2)))) \<le> 238"
    by (simp add: float64_238)
qed

lemma chars_to_show_floor:
  assumes "0 \<le> progress"
  shows "chars_to_show progress = \<lfloor>float64 (238 * min 1 (float64 (progress * (3 / 2))))\<rfloor>"
  using reveal_product_range(1) [OF assms]
  by (simp add: chars_to_show_def len_agent py_int_nonneg)

lemma chars_to_show_range:
  assumes "0 \<le> progress"
  shows "0 \<le> chars_to_show progress" and "chars_to_show progress \<le> 238"
proof -
  define v where "v = float64 (238 * min 1 (float64 (progress * (3 / 2))))"
  have v: "0 \<le> v" "v \<le> 238"
    using reveal_product_range [OF assms] by (simp_all add: v_def)
  have c: "chars_to_show progress = \<lfloor>v\<rfloor>"
    by (simp add: chars_to_show_floor [OF assms] v_def)
  show "0 \<le> chars_to_show progress"
    unfolding c using v(1) by simp
  have "\<lfloor>v\<rfloor> \<le> \<lfloor>238 :: real\<rfloor>"
    using v(2) by (rule floor_mono)
  then show "chars_to_show progress \<le> 238"
    unfolding c by simp
qed

lemma chars_to_show_mono:
  assumes "p \<le> q"
  shows "chars_to_show p \<le> chars_to_show q"
proof -
  have "float64 (p * (3 / 2)) \<le> float64 (q * (3 / 2))"
    by (rule float64_mono) (use assms in simp)
  then have "min 1 (float64 (p * (3 / 2))) \<le> min 1 (float64 (q * (3 / 2)))"
    by (simp add: min_def)
  then have "real (length agent_response) * min 1 (float64 (p * (3 / 2)))
               \<le> real (length agent_response) * min 1 (float64 (q * (3 / 2)))"
    by (simp add: mult_left_mono)
  then have "float64 (real (length agent_response) * min 1 (float64 (p * (3 / 2))))
               \<le> float64 (real (length agent_response) * min 1 (float64 (q * (3 / 2))))"
    by (rule float64_mono)
  then show ?thesis
    unfolding chars_to_show_def by (rule py_int_mono)
qed

lemma chars_to_show_full:
  assumes "2 / 3 \<le> p"
  shows "chars_to_show p = int (length agent_response)"
proof -
  have "1 \<le> p * (3 / 2)" using assms by simp
  then have "float64 1 \<le> float64 (p * (3 / 2))" by (rule float64_mono)
  then have "min 1 (float64 (p * (3 / 2))) = 1" by (simp add: float64_1)
  then show ?thesis
    by (simp add: chars_to_show_def len_agent float64_238 py_int_def)
qed

lemma no_cursor_in_response: "9612 \<notin> set agent_response"
  by (simp add: agent_response_def ascii_def)

lemma visible_todos_floor:
  assumes "0 \<le> progress"
  shows "visible_todos progress 2 = take (nat \<lfloor>4 * min 1 (progress * 2)\<rfloor>) todos"
proof -
  have "0 \<le> 4 * min 1 (progress * 2)" using assms by simp
  then show ?thesis
    by (simp add: visible_todos_def opacity_def len_todos py_int_nonneg slice_to_def)
qed

lemma items_range:
  fixes progress :: real
  assumes "0 \<le> progress"
  shows "0 \<le> \<lfloor>4 * min 1 (progress * 2)\<rfloor>" and "\<lfloor>4 * min 1 (progress * 2)\<rfloor> \<le> 4"
proof -
  show "0 \<le> \<lfloor>4 * min 1 (progress * 2)\<rfloor>" using assms by simp
  have "4 * min 1 (progress * 2) \<le> 4" by simp
  then have "\<lfloor>4 * min 1 (progress * 2)\<rfloor> \<le> \<lfloor>4 :: real\<rfloor>" by (rule floor_mono)
  then show "\<lfloor>4 * min 1 (progress * 2)\<rfloor> \<le> 4" by simp
qed


section \<open>Results on the chat-demo frame\<close>

text \<open>
  The claim C1 as stated does not hold. In phase 0 the frame is the same at every
  progress, at progress 0 as at a quarter of the phase, where the fade-in value goes from
  0 to 1; and at progress 0 the bubble is filled with its own colour \<open>(60, 60, 100)\<close>, not
  with the colour of the window behind it, which opacity 0 would leave.
\<close>

theorem user_bubble_alpha_counterexample:
  "create_chat_demo_frame no_fonts_env 0 0 = create_chat_demo_frame no_fonts_env (1 / 4) 0 \<and>
   user_alpha 0 0 = 0 \<and> user_alpha (1 / 4) 0 = 1 \<and>
   map_sum id user_bubble_fill (create_chat_demo_frame no_fonts_env 0 0) = Inr [(60, 60, 100)] \<and>
   channels (60, 60, 100) \<noteq> shown_at (user_alpha 0 0) (60, 60, 100) DARK_BG"
proof -
  obtain img where "create_chat_demo_frame no_fonts_env 0 0 = Inr img"
    "fills_in user_bubble_box (im_drawn img) = [(60, 60, 100)]"
    using frame_ok [OF default_no_fonts, of 0 0] by auto
  then have "map_sum id user_bubble_fill (create_chat_demo_frame no_fonts_env 0 0)
               = Inr [(60, 60, 100)]"
    by (simp add: user_bubble_fill_def)
  moreover have "channels (60, 60, 100) \<noteq> shown_at (user_alpha 0 0) (60, 60, 100) DARK_BG"
    by (simp add: channels_def shown_at_def user_alpha_def DARK_BG_def)
  moreover have "user_alpha 0 0 = 0" "user_alpha (1 / 4) 0 = 1"
    by (simp_all add: user_alpha_def)
  ultimately show ?thesis
    using frame_phase0 [of no_fonts_env 0 "1 / 4"] by simp
qed

text \<open>
  C1, as amended. For every progress and every phase from 0 on, the user bubble is drawn
  with its fixed fill \<open>(60, 60, 100)\<close>, its message in white and its label, as plain RGB
  colours and so at full opacity, whatever the progress. The fade-in value
  \<open>min(1, progress * 4)\<close> of phase 0 (and 1 in later phases) is computed and not applied:
  the frames of phase 0 do not depend on progress.
\<close>

theorem user_bubble_opaque:
  assumes "load_default env = Inr d" and "0 \<le> phase"
  shows "\<exists>img. create_chat_demo_frame env progress phase = Inr img \<and>
           user_bubble_fill img = [(60, 60, 100)] \<and>
           user_texts_shown img = [(user_msg, WHITE), (ascii ''You'', (150, 150, 180))] \<and>
           user_alpha progress phase = (if phase = 0 then min 1 (progress * 4) else 1) \<and>
           (phase = 0 \<longrightarrow>
              create_chat_demo_frame env progress' phase = create_chat_demo_frame env progress phase)"
  using frame_ok [OF assms(1), of progress phase] assms(2) frame_phase0 [of env progress' progress]
  by (auto simp: user_bubble_fill_def user_texts_shown_def user_alpha_def)

theorem user_bubble_opaque_witness:
  "load_default no_fonts_env = Inr DefaultFont \<and> (0 :: int) \<le> 0 \<and>
   (\<exists>img. create_chat_demo_frame no_fonts_env 0 0 = Inr img \<and>
      user_bubble_fill img = [(60, 60, 100)] \<and> user_alpha 0 0 = 0)"
proof -
  have p: "(0 :: int) \<le> 0" by simp
  show ?thesis
    using default_no_fonts user_bubble_opaque [OF default_no_fonts p, of 0 0]
    by auto
qed

text \<open>
  C4. In phase 1 and for a progress from 0 on, the agent text in the frame is the first
  \<open>n\<close> characters of the response, \<open>n = floor(238 * min(1, progress * 1.5))\<close> with the two
  products rounded to doubles as the program computes them, followed by the cursor
  U+258C (code point 9612) while \<open>n\<close> is below the length 238 of the response. From
  phase 2 on it is the whole response, which holds no cursor.
\<close>

theorem typed_reveal:
  assumes "load_default env = Inr d"
  shows "(0 \<le> progress \<longrightarrow>
           (\<exists>img. create_chat_demo_frame env progress 1 = Inr img \<and>
              agent_text_shown img =
                take (nat \<lfloor>float64 (238 * min 1 (float64 (progress * (3 / 2))))\<rfloor>) agent_response
                  @ (if \<lfloor>float64 (238 * min 1 (float64 (progress * (3 / 2))))\<rfloor> < 238
                     then [9612] else []) \<and>
              int (length (take (nat \<lfloor>float64 (238 * min 1 (float64 (progress * (3 / 2))))\<rfloor>)
                     agent_response))
                = \<lfloor>float64 (238 * min 1 (float64 (progress * (3 / 2))))\<rfloor>)) \<and>
         (2 \<le> phase \<longrightarrow>
           (\<exists>img. create_chat_demo_frame env progress phase = Inr img \<and>
              agent_text_shown img = agent_response)) \<and>
         length agent_response = 238 \<and> 9612 \<notin> set agent_response"
proof (intro conjI impI)
  show "length agent_response = 238" by (rule len_agent)
next
  show "9612 \<notin> set agent_response" by (rule no_cursor_in_response)
next
  assume ph: "2 \<le> phase"
  obtain img where img: "create_chat_demo_frame env progress phase = Inr img"
    "texts_at agent_column img = map (\<lambda>l. (l, WHITE)) (split_nl (visible_text progress phase))"
    using frame_ok [OF assms, of progress phase] ph by auto
  have "visible_text progress phase = agent_response"
    using ph by (simp add: visible_text_def)
  with img show "\<exists>img. create_chat_demo_frame env progress phase = Inr img \<and>
            agent_text_shown img = agent_response"
    by (simp add: agent_text_shown_def comp_def join_split)
next
  assume pr: "0 \<le> progress"
  define n where "n = \<lfloor>float64 (238 * min 1 (float64 (progress * (3 / 2))))\<rfloor>"
  obtain img where img: "create_chat_demo_frame env progress 1 = Inr img"
    "texts_at agent_column img = map (\<lambda>l. (l, WHITE)) (split_nl (visible_text progress 1))"
    using frame_ok [OF assms, of progress 1] by auto
  have n: "chars_to_show progress = n" "0 \<le> n" "n \<le> 238"
    using chars_to_show_floor [OF pr] chars_to_show_range [OF pr] by (simp_all add: n_def)
  have "visible_text progress 1 =
          take (nat n) agent_response @ (if n < 238 then [9612] else [])"
    using n by (simp add: visible_text_def Let_def slice_to_def len_agent cursor_def)
  then have a: "agent_text_shown img =
          take (nat n) agent_response @ (if n < 238 then [9612] else [])"
    using img(2) by (simp add: agent_text_shown_def comp_def join_split)
  have "int (length (take (nat n) agent_response)) = n"
    using n by (simp add: len_agent)
  with img(1) a show "\<exists>img. create_chat_demo_frame env progress 1 = Inr img \<and>
            agent_text_shown img =
              take (nat \<lfloor>float64 (238 * min 1 (float64 (progress * (3 / 2))))\<rfloor>) agent_response
                @ (if \<lfloor>float64 (238 * min 1 (float64 (progress * (3 / 2))))\<rfloor> < 238
                   then [9612] else []) \<and>
            int (length (take (nat \<lfloor>float64 (238 * min 1 (float64 (progress * (3 / 2))))\<rfloor>)
                   agent_response))
              = \<lfloor>float64 (238 * min 1 (float64 (progress * (3 / 2))))\<rfloor>"
    unfolding n_def by blast
qed

theorem typed_reveal_witness:
  "load_default no_fonts_env = Inr DefaultFont \<and>
   (0 :: real) \<le> 6004799503160661 / 18014398509481984 \<and>
   (\<exists>img. create_chat_demo_frame no_fonts_env (6004799503160661 / 18014398509481984) 1 = Inr img \<and>
      agent_text_shown img = take 119 agent_response @ [9612]) \<and>
   (0 :: real) \<le> 6004799503160661 / 9007199254740992 \<and>
   (\<exists>img. create_chat_demo_frame no_fonts_env (6004799503160661 / 9007199254740992) 1 = Inr img \<and>
      agent_text_shown img = agent_response) \<and>
   (2 :: int) \<le> 2 \<and>
   (\<exists>img. create_chat_demo_frame no_fonts_env (1 / 3) 2 = Inr img \<and>
      agent_text_shown img = agent_response)"
proof -
  have a: "\<lfloor>float64 (238 * min 1 (float64 (6004799503160661 / 18014398509481984 * (3 / 2))))\<rfloor>
             = 119"
    by (simp add: float_eval)
  have b: "\<lfloor>float64 (238 * min 1 (float64 (6004799503160661 / 9007199254740992 * (3 / 2))))\<rfloor>
             = 238"
    by (simp add: float_eval)
  from typed_reveal [OF default_no_fonts, of "6004799503160661 / 18014398509481984" 2]
  have one: "\<exists>img. create_chat_demo_frame no_fonts_env (6004799503160661 / 18014398509481984) 1
                 = Inr img \<and>
               agent_text_shown img = take 119 agent_response @ [9612]"
    unfolding a by auto
  from typed_reveal [OF default_no_fonts, of "6004799503160661 / 9007199254740992" 2]
  have two: "\<exists>img. create_chat_demo_frame no_fonts_env (6004799503160661 / 9007199254740992) 1
                 = Inr img \<and>
               agent_text_shown img = agent_response"
    unfolding b by (auto simp: len_agent)
  from typed_reveal [OF default_no_fonts, of "1 / 3" 2]
  have three: "\<exists>img. create_chat_demo_frame no_fonts_env (1 / 3) 2 = Inr img \<and>
                 agent_text_shown img = agent_response"
    by simp
  from default_no_fonts one two three show ?thesis by simp
qed

text \<open>
  C5. In phase 2 and for a progress from 0 on, the preview shows the first
  \<open>floor(4 * min(1, progress * 2))\<close> items, so all four from progress one half on; an item
  is drawn in cyan when its flag is set and in white otherwise, two different colours.
\<close>

theorem preview_items_reveal:
  assumes "load_default env = Inr d" and "0 \<le> progress"
  shows "\<exists>img. create_chat_demo_frame env progress 2 = Inr img \<and>
           preview_items_shown img =
             map (\<lambda>t. (fst t, if snd t then CYAN else WHITE))
               (take (nat \<lfloor>4 * min 1 (progress * 2)\<rfloor>) todos) \<and>
           int (length (preview_items_shown img)) = \<lfloor>4 * min 1 (progress * 2)\<rfloor> \<and>
           (1 / 2 \<le> progress \<longrightarrow> length (preview_items_shown img) = 4) \<and>
           CYAN \<noteq> WHITE"
proof -
  obtain img where img: "create_chat_demo_frame env progress 2 = Inr img"
    "texts_at item_rows img =
       map (\<lambda>t. (fst t, if snd t then CYAN else WHITE)) (visible_todos progress 2)"
    using frame_ok [OF assms(1), of progress 2] by auto
  define n where "n = \<lfloor>4 * min 1 (progress * 2)\<rfloor>"
  have n: "0 \<le> n" "n \<le> 4"
    using items_range [OF assms(2)] by (simp_all add: n_def)
  have shown: "preview_items_shown img =
      map (\<lambda>t. (fst t, if snd t then CYAN else WHITE)) (take (nat n) todos)"
    using img(2) by (simp add: preview_items_shown_def visible_todos_floor [OF assms(2)] n_def)
  have len: "int (length (preview_items_shown img)) = n"
    using n by (simp add: shown len_todos)
  have full: "length (preview_items_shown img) = 4" if "1 / 2 \<le> progress"
  proof -
    have "min 1 (progress * 2) = 1" using that by simp
    then have "n = 4" by (simp add: n_def)
    with len show ?thesis by simp
  qed
  have "CYAN \<noteq> WHITE" by (simp add: CYAN_def WHITE_def)
  with img(1) shown len full show ?thesis unfolding n_def by blast
qed

theorem preview_items_reveal_witness:
  "load_default no_fonts_env = Inr DefaultFont \<and> (0 :: real) \<le> 1 / 4 \<and>
   (\<exists>img. create_chat_demo_frame no_fonts_env (1 / 4) 2 = Inr img \<and>
      length (preview_items_shown img) = 2)"
proof -
  have p: "(0 :: real) \<le> 1 / 4" by simp
  show ?thesis
    using default_no_fonts preview_items_reveal [OF default_no_fonts p]
    by auto
qed

text \<open>
  C6. For every phase and progress the URL caption is in the frame exactly when the phase
  is 2 and the progress is above one half: hidden at one half, shown just above it.
\<close>

theorem url_caption_threshold:
  assumes "load_default env = Inr d"
  shows "\<exists>img. create_chat_demo_frame env progress phase = Inr img \<and>
           (url_caption_drawn img \<longleftrightarrow> phase = 2 \<and> progress > 1 / 2)"
  using frame_ok [OF assms, of progress phase]
  by (auto simp: url_caption_drawn_def)

theorem url_caption_threshold_witness:
  "load_default no_fonts_env = Inr DefaultFont \<and>
   (\<exists>img. create_chat_demo_frame no_fonts_env (1 / 2) 2 = Inr img \<and> \<not> url_caption_drawn img) \<and>
   (\<exists>img. create_chat_demo_frame no_fonts_env (51 / 100) 2 = Inr img \<and> url_caption_drawn img)"
  using default_no_fonts
    url_caption_threshold [OF default_no_fonts, of "1 / 2" 2]
    url_caption_threshold [OF default_no_fonts, of "51 / 100" 2]
  by simp

text \<open>
  C8. The number of characters that phase 1 reveals does not decrease when progress grows,
  is the whole length of the response from progress two thirds on, and for a progress
  from 0 on is \<open>floor(len(agent_response) * min(1, progress * 1.5))\<close>, the two products
  rounded to doubles.
\<close>

theorem typed_reveal_monotone:
  "(p \<le> q \<longrightarrow> chars_to_show p \<le> chars_to_show q) \<and>
   (2 / 3 \<le> p \<longrightarrow> chars_to_show p = int (length agent_response)) \<and>
   (0 \<le> p \<longrightarrow>
      chars_to_show p
        = \<lfloor>float64 (real (length agent_response) * min 1 (float64 (p * (3 / 2))))\<rfloor>)"
  using chars_to_show_mono [of p q] chars_to_show_full [of p] chars_to_show_floor [of p]
  by (simp add: len_agent)

theorem typed_reveal_monotone_witness:
  "(1 / 3 :: real) \<le> 2 / 3 \<and> chars_to_show (1 / 3) \<le> chars_to_show (2 / 3) \<and>
   chars_to_show (2 / 3) = 238 \<and> chars_to_show (1 / 3) = 119"
proof -
  have "\<lfloor>float64 (238 * min 1 (float64 (1 / 3 * (3 / 2))))\<rfloor> = 119"
    by (simp add: float_eval)
  with typed_reveal_monotone [of "1 / 3" "2 / 3"] typed_reveal_monotone [of "2 / 3" "2 / 3"]
  show ?thesis by (simp add: len_agent)
qed


section \<open>Results on the chat-demo sequence\<close>

lemma logged_length: "logged env k sch fs \<Longrightarrow> length fs = length sch"
  by (induction env k sch fs rule: logged.induct) auto

lemma logged_append:
  assumes "logged env k s1 f1" and "logged env (k + int (length s1)) s2 f2"
  shows "logged env k (s1 @ s2) (f1 @ f2)"
  using assms
proof (induction env k s1 f1 rule: logged.induct)
  case (2 env k e sch f fs)
  from "2.prems"(1) have a: "logged env (k + 1) sch fs" by simp
  from "2.prems"(2) have b: "logged env (k + 1 + int (length sch)) s2 f2"
    by (simp add: ac_simps)
  have "logged env (k + 1) (sch @ s2) (fs @ f2)"
    by (rule "2.IH" [OF a b])
  with "2.prems"(1) show ?case by simp
qed auto

lemma logged_nth:
  assumes "logged env k sch fs" and "j < length sch"
  shows "file_index (fs ! j) = k + int j \<and>
         from_phase (fs ! j) = fst (sch ! j) \<and>
         from_progress (fs ! j) = snd (sch ! j) \<and>
         create_chat_demo_frame env (snd (sch ! j)) (fst (sch ! j)) = Inr (content (fs ! j))"
  using assms
proof (induction env k sch fs arbitrary: j rule: logged.induct)
  case (2 env k e sch f fs)
  show ?case
  proof (cases j)
    case 0
    with 2 show ?thesis by simp
  next
    case (Suc j')
    with 2 have "j' < length sch" "logged env (k + 1) sch fs" by simp_all
    from 2(1) [OF this(2) this(1)] Suc show ?thesis by simp
  qed
qed auto

lemma logged_find:
  assumes "logged env k sch fs" and "j < length sch"
  shows "List.find (\<lambda>f. file_index f = k + int j) fs = Some (fs ! j)"
  using assms
proof (induction env k sch fs arbitrary: j rule: logged.induct)
  case (2 env k e sch f fs)
  show ?case
  proof (cases j)
    case 0
    with 2 show ?thesis by simp
  next
    case (Suc j')
    with 2 have a: "j' < length sch" "logged env (k + 1) sch fs" by simp_all
    have "List.find (\<lambda>f. file_index f = k + 1 + int j') fs = Some (fs ! j')"
      by (rule 2(1) [OF a(2) a(1)])
    moreover have "file_index f = k" using 2(2) by simp
    ultimately show ?thesis using Suc by (simp add: add.assoc)
  qed
qed auto

lemma chat_inner_ok:
  assumes "load_default env = Inr d"
  shows "\<exists>fs. chat_inner env phase frames is st = Inr (fst st + int (length is), snd st @ fs) \<and>
           logged env (fst st) (map (\<lambda>i. (phase, of_int i / of_int frames)) is) fs"
proof (induction "is" arbitrary: st)
  case Nil
  show ?case by (intro exI [of _ "[]"]) simp
next
  case (Cons i "is")
  let ?p = "of_int i / of_int frames :: real"
  obtain img where img: "create_chat_demo_frame env ?p phase = Inr img"
    using frame_ok [OF assms, of ?p phase] by blast
  let ?e = "\<lparr>file_index = fst st, from_phase = phase, from_progress = ?p, content = img\<rparr>"
  obtain fs where fs:
    "chat_inner env phase frames is (fst st + 1, snd st @ [?e])
       = Inr (fst (fst st + 1, snd st @ [?e]) + int (length is), snd (fst st + 1, snd st @ [?e]) @ fs)"
    "logged env (fst (fst st + 1, snd st @ [?e])) (map (\<lambda>i. (phase, of_int i / of_int frames)) is) fs"
    using Cons [of "(fst st + 1, snd st @ [?e])"] by blast
  have "chat_inner env phase frames (i # is) st
          = Inr (fst st + int (length (i # is)), snd st @ (?e # fs))"
    using fs(1) img by (simp add: and_then_def Let_def add.assoc add.commute)
  moreover have "logged env (fst st) (map (\<lambda>i. (phase, of_int i / of_int frames)) (i # is)) (?e # fs)"
    using fs(2) img by simp
  ultimately show ?case by blast
qed

lemma chat_outer_ok:
  assumes "load_default env = Inr d"
  shows "\<exists>gs. chat_outer env pfs st = Inr (fst st + int (length (schedule pfs)), snd st @ gs) \<and>
           logged env (fst st) (schedule pfs) gs"
proof (induction pfs arbitrary: st)
  case Nil
  show ?case by (intro exI [of _ "[]"]) simp
next
  case (Cons pf pfs)
  obtain phase frames where pf: "pf = (phase, frames)" by (cases pf)
  let ?s1 = "map (\<lambda>i. (phase, of_int i / of_int frames :: real)) [0..frames - 1]"
  obtain fs where fs:
    "chat_inner env phase frames [0..frames - 1] st
       = Inr (fst st + int (length [0..frames - 1]), snd st @ fs)"
    "logged env (fst st) ?s1 fs"
    using chat_inner_ok [OF assms, of phase frames "[0..frames - 1]" st] by blast
  let ?st = "(fst st + int (length [0..frames - 1]), snd st @ fs)"
  obtain gs where gs:
    "chat_outer env pfs ?st = Inr (fst ?st + int (length (schedule pfs)), snd ?st @ gs)"
    "logged env (fst ?st) (schedule pfs) gs"
    using Cons [of ?st] by blast
  have "chat_outer env (pf # pfs) st
          = Inr (fst st + int (length (schedule (pf # pfs))), snd st @ (fs @ gs))"
    using fs(1) gs(1) by (simp add: pf and_then_def add.assoc)
  moreover have "logged env (fst st) (schedule (pf # pfs)) (fs @ gs)"
    using logged_append [OF fs(2)] gs(2) by (simp add: pf)
  ultimately show ?case by blast
qed

lemma chat_frames_ok:
  assumes "load_default env = Inr d"
  shows "\<exists>files. chat_frames env ds = Inr files \<and>
           logged env 0 (schedule (enumerate_from 0 ds)) files"
  using chat_outer_ok [OF assms, of "enumerate_from 0 ds" "(0, [])"]
  by (auto simp: chat_frames_def and_then_def)

lemma schedule_members:
  assumes "(ph, pr) \<in> set (schedule (enumerate_from n ds))"
  shows "n \<le> ph \<and> ph < n + int (length ds) \<and> 0 \<le> pr \<and> pr < 1"
  using assms
proof (induction ds arbitrary: n)
  case Nil
  then show ?case by simp
next
  case (Cons d ds)
  from Cons.prems consider
    (block) i where "0 \<le> i" "i \<le> d - 1" "ph = n" "pr = of_int i / of_int d"
    | (rest) "(ph, pr) \<in> set (schedule (enumerate_from (n + 1) ds))"
    by auto
  then show ?case
  proof cases
    case block
    then have "0 < d" by simp
    with block show ?thesis by simp
  next
    case rest
    from Cons.IH [OF rest] show ?thesis by simp
  qed
qed

lemma schedule_length:
  assumes "\<forall>d \<in> set ds. 0 \<le> d"
  shows "int (length (schedule (enumerate_from n ds))) = sum_list ds"
proof -
  have "int (length (schedule (enumerate_from n ds))) = sum_list ds"
    if "\<forall>d \<in> set ds. 0 \<le> d" for n
    using that
  proof (induction ds arbitrary: n)
    case Nil
    then show ?case by simp
  next
    case (Cons d ds)
    then have "0 \<le> d" and "\<forall>d \<in> set ds. 0 \<le> d" by simp_all
    with Cons.IH [of "n + 1"] show ?case by simp
  qed
  with assms show ?thesis by blast
qed

lemma take_sum_nonneg:
  fixes ds :: "int list"
  assumes "\<forall>d \<in> set ds. 0 < d"
  shows "0 \<le> sum_list (take j ds)"
proof -
  have "0 \<le> d" if "d \<in> set (take j ds)" for d
  proof -
    from that have "d \<in> set ds" by (rule in_set_takeD)
    with assms have "0 < d" by blast
    then show ?thesis by simp
  qed
  then show ?thesis by (simp add: sum_list_nonneg)
qed

lemma schedule_block:
  assumes "\<forall>d \<in> set ds. 0 < d" and "j < length ds" and "0 \<le> i" and "i < ds ! j"
  shows "schedule (enumerate_from n ds) ! nat (sum_list (take j ds) + i)
           = (n + int j, of_int i / of_int (ds ! j))"
  using assms
proof (induction ds arbitrary: n j)
  case Nil
  then show ?case by simp
next
  case (Cons d ds)
  let ?f = "\<lambda>i. (n, of_int i / of_int d :: real)"
  show ?case
  proof (cases j)
    case 0
    with Cons.prems have i: "0 \<le> i" "i < d" by simp_all
    then have a: "nat i < length (map ?f [0..d - 1])" by simp
    have "[0..d - 1] ! nat i = 0 + int (nat i)"
      by (rule nth_upto) (use i in simp)
    then have "map ?f [0..d - 1] ! nat i = ?f i"
      using i a by simp
    with a 0 show ?thesis by (simp add: nth_append)
  next
    case (Suc j')
    with Cons.prems have p: "\<forall>d \<in> set ds. 0 < d" "j' < length ds" "0 \<le> i" "i < ds ! j'" "0 < d"
      by simp_all
    have s: "0 \<le> sum_list (take j' ds)"
      by (rule take_sum_nonneg) (rule p(1))
    have idx: "nat (sum_list (take j (d # ds)) + i) = nat d + nat (sum_list (take j' ds) + i)"
      using Suc s p by (simp add: nat_add_distrib)
    have len: "length (map ?f [0..d - 1]) = nat d" using p by simp
    have "schedule (enumerate_from n (d # ds)) ! nat (sum_list (take j (d # ds)) + i)
            = schedule (enumerate_from (n + 1) ds) ! nat (sum_list (take j' ds) + i)"
      unfolding idx using len by (simp add: nth_append del: length_map)
    also have "\<dots> = (n + 1 + int j', of_int i / of_int (ds ! j'))"
      by (rule Cons.IH [OF p(1) p(2) p(3) p(4)])
    finally show ?thesis using Suc by simp
  qed
qed

lemma schedule_block_bound:
  assumes "\<forall>d \<in> set ds. 0 < d" and "j < length ds" and "0 \<le> i" and "i < ds ! j"
  shows "nat (sum_list (take j ds) + i) < length (schedule (enumerate_from n ds))"
proof -
  have "sum_list (take j ds) + ds ! j = sum_list (take (Suc j) ds)"
    using assms(2) by (simp add: take_Suc_conv_app_nth)
  moreover have "sum_list (take (Suc j) ds) + sum_list (drop (Suc j) ds) = sum_list ds"
    by (metis append_take_drop_id sum_list_append)
  moreover have "0 \<le> sum_list (drop (Suc j) ds)"
  proof -
    have "0 \<le> d" if "d \<in> set (drop (Suc j) ds)" for d
    proof -
      from that have "d \<in> set ds" by (rule in_set_dropD)
      with assms(1) have "0 < d" by blast
      then show ?thesis by simp
    qed
    then show ?thesis by (simp add: sum_list_nonneg)
  qed
  ultimately have "sum_list (take j ds) + i < sum_list ds"
    using assms(4) by linarith
  moreover have "int (length (schedule (enumerate_from n ds))) = sum_list ds"
    by (rule schedule_length) (use assms(1) in force)
  moreover have "0 \<le> sum_list (take j ds) + i"
    using take_sum_nonneg [OF assms(1), of j] assms(3) by simp
  ultimately show ?thesis by linarith
qed

lemma chat_file_at_block:
  assumes "load_default env = Inr d"
    and "j < length phase_frames" and "0 \<le> i" and "i < phase_frames ! j"
    and "k = sum_list (take j phase_frames) + i"
  shows "\<exists>f. chat_file_at env k = Some f \<and> from_phase f = int j \<and>
           from_progress f = of_int i / of_int (phase_frames ! j) \<and>
           create_chat_demo_frame env (of_int i / of_int (phase_frames ! j)) (int j)
             = Inr (content f)"
proof -
  let ?sch = "schedule (enumerate_from 0 phase_frames)"
  have pos: "\<forall>d \<in> set phase_frames. 0 < d"
    by (simp add: phase_frames_def)
  obtain files where files: "main_chat env = Inr files" "logged env 0 ?sch files"
    using chat_frames_ok [OF assms(1), of phase_frames] by (auto simp: main_chat_def)
  have k0: "0 \<le> k"
    using take_sum_nonneg [OF pos, of j] assms(3,5) by simp
  have bound: "nat k < length ?sch"
    unfolding assms(5) by (rule schedule_block_bound [OF pos assms(2,3,4)])
  have entry: "?sch ! nat k = (0 + int j, of_int i / of_int (phase_frames ! j))"
    unfolding assms(5) by (rule schedule_block [OF pos assms(2,3,4)])
  have "List.find (\<lambda>f. file_index f = 0 + int (nat k)) files = Some (files ! nat k)"
    by (rule logged_find [OF files(2) bound])
  then have found: "chat_file_at env k = Some (files ! nat k)"
    using k0 files(1) by (simp add: chat_file_at_def)
  from logged_nth [OF files(2) bound] entry found show ?thesis
    by simp
qed

lemma chat_269:
  assumes "load_default env = Inr d"
  shows "\<exists>f. chat_file_at env 269 = Some f \<and> from_phase f = 1 \<and>
           from_progress f = 179 / 180 \<and>
           preview_items_shown (content f) = [] \<and> \<not> url_caption_drawn (content f)"
proof -
  have a: "Suc 0 < length phase_frames" "(179 :: int) < phase_frames ! Suc 0"
    "(269 :: int) = sum_list (take (Suc 0) phase_frames) + 179"
    by (simp_all add: phase_frames_def)
  obtain f where f: "chat_file_at env 269 = Some f" "from_phase f = 1"
    "from_progress f = 179 / 180"
    "create_chat_demo_frame env (179 / 180) 1 = Inr (content f)"
    using chat_file_at_block [OF assms a(1) _ a(2) a(3)] by (auto simp: phase_frames_def)
  from frame_ok [OF assms, of "179 / 180" 1] f(4)
  have "texts_at item_rows (content f) = []" "texts_at caption_place (content f) = []"
    by auto
  with f show ?thesis
    by (simp add: preview_items_shown_def url_caption_drawn_def)
qed

lemma chat_315:
  assumes "load_default env = Inr d"
  shows "\<exists>f. chat_file_at env 315 = Some f \<and> from_phase f = 2 \<and>
           from_progress f = 1 / 2 \<and>
           length (preview_items_shown (content f)) = 4 \<and> \<not> url_caption_drawn (content f)"
proof -
  have a: "Suc (Suc 0) < length phase_frames" "(45 :: int) < phase_frames ! Suc (Suc 0)"
    "(315 :: int) = sum_list (take (Suc (Suc 0)) phase_frames) + 45"
    by (simp_all add: phase_frames_def)
  obtain f where f: "chat_file_at env 315 = Some f" "from_phase f = 2"
    "from_progress f = 1 / 2"
    "create_chat_demo_frame env (1 / 2) 2 = Inr (content f)"
    using chat_file_at_block [OF assms a(1) _ a(2) a(3)] by (auto simp: phase_frames_def)
  have v: "visible_todos (1 / 2) 2 = todos"
    using visible_todos_floor [of "1 / 2"] by (simp add: len_todos)
  from frame_ok [OF assms, of "1 / 2" 2] f(4)
  have "texts_at item_rows (content f) = map (\<lambda>t. (fst t, if snd t then CYAN else WHITE)) todos"
    "texts_at caption_place (content f) = []"
    by (auto simp: v)
  with f show ?thesis
    by (simp add: preview_items_shown_def url_caption_drawn_def len_todos)
qed

lemma chat_316:
  assumes "load_default env = Inr d"
  shows "\<exists>f. chat_file_at env 316 = Some f \<and> from_phase f = 2 \<and>
           from_progress f = 46 / 90 \<and>
           length (preview_items_shown (content f)) = 4 \<and> url_caption_drawn (content f)"
proof -
  have a: "Suc (Suc 0) < length phase_frames" "(46 :: int) < phase_frames ! Suc (Suc 0)"
    "(316 :: int) = sum_list (take (Suc (Suc 0)) phase_frames) + 46"
    by (simp_all add: phase_frames_def)
  obtain f where f: "chat_file_at env 316 = Some f" "from_phase f = 2"
    "from_progress f = 46 / 90"
    "create_chat_demo_frame env (46 / 90) 2 = Inr (content f)"
    using chat_file_at_block [OF assms a(1) _ a(2) a(3)] by (auto simp: phase_frames_def)
  have v: "visible_todos (23 / 45) 2 = todos"
    using visible_todos_floor [of "23 / 45"] by (simp add: len_todos)
  from frame_ok [OF assms, of "46 / 90" 2] f(4)
  have "texts_at item_rows (content f) = map (\<lambda>t. (fst t, if snd t then CYAN else WHITE)) todos"
    "texts_at caption_place (content f) = [(url_caption, CYAN)]"
    by (auto simp: v)
  with f show ?thesis
    by (simp add: preview_items_shown_def url_caption_drawn_def len_todos)
qed

text \<open>
  The claim C2 as stated does not hold. The phases take the frames 0 to 89, 90 to 269 and
  270 to 359, so the file of index 269 is the last frame of phase 1: it is rendered at
  progress 179/180, with no preview item and no URL caption in it.
\<close>

theorem frame_269_counterexample:
  "map_option from_phase (chat_file_at no_fonts_env 269) = Some 1 \<and>
   map_option from_progress (chat_file_at no_fonts_env 269) = Some (179 / 180) \<and>
   map_option (\<lambda>f. preview_items_shown (content f)) (chat_file_at no_fonts_env 269) = Some [] \<and>
   map_option (\<lambda>f. url_caption_drawn (content f)) (chat_file_at no_fonts_env 269) = Some False"
  using chat_269 [OF default_no_fonts] by auto

text \<open>
  C2, as amended. In the chat sequence of \<open>main\<close>, with the phase durations 90, 180 and 90,
  the frame of index 269 is the last one of phase 1, at progress 179/180, and shows no
  preview item and no URL caption. The frame of phase 2 at progress one half is the one of
  index 315: it shows all four items and, the threshold being strict, no caption. The
  frame of index 316, at progress 46/90 of phase 2, shows the four items and the caption.
\<close>

theorem frame_269:
  assumes "load_default env = Inr d"
  shows "(\<exists>f. chat_file_at env 269 = Some f \<and> from_phase f = 1 \<and>
            from_progress f = 179 / 180 \<and>
            preview_items_shown (content f) = [] \<and> \<not> url_caption_drawn (content f)) \<and>
         (\<exists>f. chat_file_at env 315 = Some f \<and> from_phase f = 2 \<and>
            from_progress f = 1 / 2 \<and>
            length (preview_items_shown (content f)) = 4 \<and> \<not> url_caption_drawn (content f)) \<and>
         (\<exists>f. chat_file_at env 316 = Some f \<and> from_phase f = 2 \<and>
            from_progress f = 46 / 90 \<and>
            length (preview_items_shown (content f)) = 4 \<and> url_caption_drawn (content f))"
  using chat_269 [OF assms] chat_315 [OF assms] chat_316 [OF assms] by blast

theorem frame_269_witness:
  "load_default no_fonts_env = Inr DefaultFont \<and>
   (\<exists>f. chat_file_at no_fonts_env 269 = Some f \<and> from_phase f = 1 \<and>
      from_progress f = 179 / 180 \<and> \<not> url_caption_drawn (content f)) \<and>
   (\<exists>f. chat_file_at no_fonts_env 316 = Some f \<and> from_phase f = 2 \<and>
      url_caption_drawn (content f))"
  using default_no_fonts frame_269 [OF default_no_fonts] by blast

text \<open>
  C3. With positive phase durations \<open>ds\<close> the two loops write one file for every index
  below the sum of the durations, numbered in order. Every file comes from a phase between
  0 and the number of phases and from a progress in \<open>[0, 1)\<close>; frame \<open>i\<close> of phase \<open>j\<close>, which
  is the file of index \<open>ds[0] + ... + ds[j-1] + i\<close>, has progress \<open>i / ds[j]\<close>, so the first
  frame of a phase has progress 0 and the last one \<open>(n - 1) / n\<close>, below 1.
\<close>

theorem timeline_locate:
  assumes "load_default env = Inr d" and "\<forall>n \<in> set ds. 0 < n"
  shows "\<exists>files. chat_frames env ds = Inr files \<and>
           int (length files) = sum_list ds \<and>
           (\<forall>k < length files.
              file_index (files ! k) = int k \<and>
              0 \<le> from_phase (files ! k) \<and> from_phase (files ! k) < int (length ds) \<and>
              0 \<le> from_progress (files ! k) \<and> from_progress (files ! k) < 1 \<and>
              create_chat_demo_frame env (from_progress (files ! k)) (from_phase (files ! k))
                = Inr (content (files ! k))) \<and>
           (\<forall>j < length ds. \<forall>i. 0 \<le> i \<and> i < ds ! j \<longrightarrow>
              from_phase (files ! nat (sum_list (take j ds) + i)) = int j \<and>
              from_progress (files ! nat (sum_list (take j ds) + i))
                = of_int i / of_int (ds ! j)) \<and>
           (\<forall>j < length ds.
              from_progress (files ! nat (sum_list (take j ds))) = 0 \<and>
              from_progress (files ! nat (sum_list (take j ds) + (ds ! j - 1)))
                = of_int (ds ! j - 1) / of_int (ds ! j) \<and>
              of_int (ds ! j - 1) / of_int (ds ! j) < (1 :: real))"
proof -
  let ?sch = "schedule (enumerate_from 0 ds)"
  obtain files where files: "chat_frames env ds = Inr files" "logged env 0 ?sch files"
    using chat_frames_ok [OF assms(1), of ds] by blast
  have len: "length files = length ?sch"
    by (rule logged_length [OF files(2)])
  have total: "int (length files) = sum_list ds"
    unfolding len by (rule schedule_length) (use assms(2) in force)
  have each: "file_index (files ! k) = int k \<and>
              0 \<le> from_phase (files ! k) \<and> from_phase (files ! k) < int (length ds) \<and>
              0 \<le> from_progress (files ! k) \<and> from_progress (files ! k) < 1 \<and>
              create_chat_demo_frame env (from_progress (files ! k)) (from_phase (files ! k))
                = Inr (content (files ! k))" if "k < length files" for k
  proof -
    from that len have k: "k < length ?sch" by simp
    note n = logged_nth [OF files(2) k]
    have "(from_phase (files ! k), from_progress (files ! k)) \<in> set ?sch"
      using n nth_mem [OF k] by simp
    from schedule_members [OF this] n show ?thesis by simp
  qed
  have block: "from_phase (files ! nat (sum_list (take j ds) + i)) = int j \<and>
               from_progress (files ! nat (sum_list (take j ds) + i)) = of_int i / of_int (ds ! j)"
    if "j < length ds" "0 \<le> i" "i < ds ! j" for j i
  proof -
    have b: "nat (sum_list (take j ds) + i) < length ?sch"
      by (rule schedule_block_bound [OF assms(2) that])
    have e: "?sch ! nat (sum_list (take j ds) + i) = (0 + int j, of_int i / of_int (ds ! j))"
      by (rule schedule_block [OF assms(2) that])
    from logged_nth [OF files(2) b] e show ?thesis by simp
  qed
  have ends: "from_progress (files ! nat (sum_list (take j ds))) = 0 \<and>
              from_progress (files ! nat (sum_list (take j ds) + (ds ! j - 1)))
                = of_int (ds ! j - 1) / of_int (ds ! j) \<and>
              of_int (ds ! j - 1) / of_int (ds ! j) < (1 :: real)" if "j < length ds" for j
  proof -
    have p: "0 < ds ! j" using assms(2) that by simp
    from block [OF that, of 0] p
    have a: "from_progress (files ! nat (sum_list (take j ds))) = 0" by simp
    from block [OF that, of "ds ! j - 1"] p
    have b: "from_progress (files ! nat (sum_list (take j ds) + (ds ! j - 1)))
                = of_int (ds ! j - 1) / of_int (ds ! j)" by simp
    have "of_int (ds ! j - 1) / of_int (ds ! j) < (1 :: real)" using p by simp
    with a b show ?thesis by simp
  qed
  from files(1) total each block ends show ?thesis by blast
qed

theorem timeline_locate_witness:
  "load_default no_fonts_env = Inr DefaultFont \<and> (0 :: int) < 90 \<and> (0 :: int) < 180 \<and>
   (\<exists>files. chat_frames no_fonts_env [90, 180, 90] = Inr files \<and>
      length files = 360 \<and> file_index (files ! 269) = 269 \<and>
      from_phase (files ! 269) = 1 \<and> from_progress (files ! 269) = 179 / 180)"
proof -
  have p: "\<forall>n \<in> set [90, 180, 90 :: int]. 0 < n" by simp
  obtain files where f: "chat_frames no_fonts_env [90, 180, 90] = Inr files"
    "int (length files) = sum_list [90, 180, 90]"
    "\<forall>k < length files. file_index (files ! k) = int k"
    "\<forall>j < length [90, 180, 90 :: int]. \<forall>i. 0 \<le> i \<and> i < [90, 180, 90] ! j \<longrightarrow>
       from_phase (files ! nat (sum_list (take j [90, 180, 90]) + i)) = int j \<and>
       from_progress (files ! nat (sum_list (take j [90, 180, 90]) + i))
         = of_int i / of_int ([90, 180, 90] ! j)"
    using timeline_locate [OF default_no_fonts p] by blast
  have len: "length files = 360" using f(2) by simp
  have "file_index (files ! 269) = 269" using f(3) len by simp
  moreover have "from_phase (files ! 269) = 1 \<and> from_progress (files ! 269) = 179 / 180"
    using f(4) [rule_format, of "Suc 0" 179] by simp
  ultimately show ?thesis using default_no_fonts f(1) len by simp
qed


section \<open>Results on the fades of the intro and the outro\<close>

lemma blend_zero: "blend im1 im2 0 = im1"
  by (simp add: blend_def float64_def float32_def round_to_zero)












text \<open>
  C7. Both slide loops are the fade envelope of the specification with a fade-in and a
  fade-out of 30 frames, over 150 frames for the intro and 180 for the outro. A frame
  \<open>i < 30\<close> is the background blended towards the slide with factor \<open>i / 30\<close>, so frame 0 is
  the background alone; a frame \<open>i > total - 30\<close> is the slide blended towards the
  background with factor \<open>(i - (total - 30)) / 30\<close>; every frame between is the slide
  itself, the frames 30 and \<open>total - 30\<close> included.
\<close>

theorem fade_envelope:
  "intro_frame img i = spec_fade img (new_image DARK_BG) i 30 30 150 \<and>
   outro_frame img i = spec_fade img (new_image DARK_BG) i 30 30 180 \<and>
   (i < 30 \<longrightarrow>
      intro_frame img i = blend (new_image DARK_BG) img (of_int i / 30) \<and>
      outro_frame img i = blend (new_image DARK_BG) img (of_int i / 30)) \<and>
   (150 - 30 < i \<longrightarrow>
      intro_frame img i = blend img (new_image DARK_BG) (of_int (i - (150 - 30)) / 30)) \<and>
   (180 - 30 < i \<longrightarrow>
      outro_frame img i = blend img (new_image DARK_BG) (of_int (i - (180 - 30)) / 30)) \<and>
   (30 \<le> i \<and> i \<le> 150 - 30 \<longrightarrow> intro_frame img i = img) \<and>
   (30 \<le> i \<and> i \<le> 180 - 30 \<longrightarrow> outro_frame img i = img) \<and>
   intro_frame img 0 = new_image DARK_BG \<and> outro_frame img 0 = new_image DARK_BG \<and>
   intro_frame img 30 = img \<and> intro_frame img (150 - 30) = img \<and>
   outro_frame img 30 = img \<and> outro_frame img (180 - 30) = img \<and>
   main_intro img = map (\<lambda>i. (i, spec_fade img (new_image DARK_BG) i 30 30 150)) [0..149] \<and>
   main_outro img = map (\<lambda>i. (i, spec_fade img (new_image DARK_BG) i 30 30 180)) [0..179]"
proof -
  have a: "intro_frame img i = spec_fade img (new_image DARK_BG) i 30 30 150" for i
    by (simp add: intro_frame_def spec_fade_def Let_def)
  have b: "outro_frame img i = spec_fade img (new_image DARK_BG) i 30 30 180" for i
    by (simp add: outro_frame_def spec_fade_def Let_def)
  have c: "main_intro img = map (\<lambda>i. (i, spec_fade img (new_image DARK_BG) i 30 30 150)) [0..149]"
    by (simp add: main_intro_def a)
  have e: "main_outro img = map (\<lambda>i. (i, spec_fade img (new_image DARK_BG) i 30 30 180)) [0..179]"
    by (simp add: main_outro_def b)
  have z: "intro_frame img 0 = new_image DARK_BG" "outro_frame img 0 = new_image DARK_BG"
    by (simp_all add: intro_frame_def outro_frame_def Let_def blend_zero)
  have rest: "(i < 30 \<longrightarrow>
      intro_frame img i = blend (new_image DARK_BG) img (of_int i / 30) \<and>
      outro_frame img i = blend (new_image DARK_BG) img (of_int i / 30)) \<and>
   (150 - 30 < i \<longrightarrow>
      intro_frame img i = blend img (new_image DARK_BG) (of_int (i - (150 - 30)) / 30)) \<and>
   (180 - 30 < i \<longrightarrow>
      outro_frame img i = blend img (new_image DARK_BG) (of_int (i - (180 - 30)) / 30)) \<and>
   (30 \<le> i \<and> i \<le> 150 - 30 \<longrightarrow> intro_frame img i = img) \<and>
   (30 \<le> i \<and> i \<le> 180 - 30 \<longrightarrow> outro_frame img i = img) \<and>
   intro_frame img 30 = img \<and> intro_frame img (150 - 30) = img \<and>
   outro_frame img 30 = img \<and> outro_frame img (180 - 30) = img"
    by (simp add: intro_frame_def outro_frame_def Let_def)
  from a b c e z rest show ?thesis by simp
qed

theorem fade_envelope_witness:
  "(15 :: int) < 30 \<and> intro_frame (new_image WHITE) 15 (0, 0) = (140, 140, 150) \<and>
   (150 - 30 :: int) < 135 \<and> intro_frame (new_image WHITE) 135 (0, 0) = (140, 140, 150) \<and>
   (180 - 30 :: int) < 165 \<and> outro_frame (new_image WHITE) 165 (0, 0) = (140, 140, 150) \<and>
   (30 :: int) \<le> 60 \<and> (60 :: int) \<le> 150 - 30 \<and> intro_frame (new_image WHITE) 60 (0, 0) = (255, 255, 255)"
proof -
  have h: "float32 (float64 (1 / 2)) = 1 / 2"
    by (simp add: float_eval)
  have c: "blend_channel 26 255 (1 / 2) = 140" "blend_channel 46 255 (1 / 2) = 150"
    "blend_channel 255 26 (1 / 2) = 140" "blend_channel 255 46 (1 / 2) = 150"
    by (simp_all add: blend_channel_def py_int_def float_eval)
  from fade_envelope [of "new_image WHITE" 15] fade_envelope [of "new_image WHITE" 135]
    fade_envelope [of "new_image WHITE" 165] fade_envelope [of "new_image WHITE" 60]
  show ?thesis
    by (simp add: spec_fade_def blend_def blend_pixel_def new_image_def WHITE_def DARK_BG_def h c)
qed



end
